theory Spec2Isabelle
  imports Complex_Main
begin

section \<open>The graph store\<close>

text \<open>
  The engine of \<^verbatim>\<open>src/core.js\<close> works on a Cytoscape instance \<^verbatim>\<open>cy\<close> and on the
  per-instance state it reaches through \<^verbatim>\<open>getState(cy)\<close>. Both are held in one record,
  \<open>world\<close>, which every operation takes and returns.

  An element of the graph is a node or an edge. Identifiers are JavaScript strings. A node
  carries its optional \<^verbatim>\<open>data.parent\<close>, its position and the data flag \<^verbatim>\<open>_hidden\<close>; an
  edge carries its endpoints and the data flags \<^verbatim>\<open>_isProjection\<close> and \<^verbatim>\<open>_hidden\<close>.
  Coordinates are JavaScript numbers; they are idealised as real numbers here, so rounding
  of IEEE doubles is outside the model. The display style and the CSS classes that the code
  writes are never read by it and are left out.
\<close>

type_synonym pos = "real \<times> real"

record node =
  node_id :: string
  node_parent :: "string option"
  node_position :: pos
  node_hidden :: bool

record edge =
  edge_id :: string
  edge_source :: string
  edge_target :: string
  edge_isProjection :: bool
  edge_hidden :: bool

datatype event = CollapseEvent string | ExpandEvent string | LayoutResetRequired

record projection =
  projIds :: "string list"
  originalIds :: "string list"

record world =
  nodes :: "node list"
  edges :: "edge list"
  emitted :: "event list"
  animations :: "(string \<times> pos) list"
  collapsedIds :: "string set"
  hiddenElementsMap :: "string \<rightharpoonup> string list"
  savedPositionsMap :: "string \<rightharpoonup> (string \<rightharpoonup> pos)"
  projectionEdgesMap :: "string \<rightharpoonup> projection"
  hiddenIds :: "string set"

record opts =
  animate :: bool
  maxIterations :: "nat option"
  overlapPadding :: "real option"

text \<open>The state \<^verbatim>\<open>getState\<close> creates on first use, around a given graph.\<close>

definition initial :: "node list \<Rightarrow> edge list \<Rightarrow> world" where
  "initial ns es =
     \<lparr>nodes = ns, edges = es, emitted = [], animations = [], collapsedIds = {},
      hiddenElementsMap = Map.empty, savedPositionsMap = Map.empty,
      projectionEdgesMap = Map.empty, hiddenIds = {}\<rparr>"

subsection \<open>Queries of the store\<close>

definition getNode :: "world \<Rightarrow> string \<Rightarrow> node option" where
  "getNode w i = find (\<lambda>n. node_id n = i) (nodes w)"

definition getEdge :: "world \<Rightarrow> string \<Rightarrow> edge option" where
  "getEdge w i = find (\<lambda>e. edge_id e = i) (edges w)"

definition hasElementWithId :: "world \<Rightarrow> string \<Rightarrow> bool" where
  "hasElementWithId w i = (getNode w i \<noteq> None \<or> getEdge w i \<noteq> None)"

definition children :: "node list \<Rightarrow> string \<Rightarrow> node list" where
  "children ns p = filter (\<lambda>n. node_parent n = Some p) ns"

definition isParent :: "world \<Rightarrow> string \<Rightarrow> bool" where
  "isParent w i = (getNode w i \<noteq> None \<and> children (nodes w) i \<noteq> [])"

text \<open>
  \<^verbatim>\<open>node.descendants()\<close> walks the hierarchy depth first, every child followed by its own
  descendants. The recursion is bounded by the number of nodes, which is enough in a
  hierarchy without cycles (lemma \<open>descendants_fuel_enough\<close> below).
\<close>

fun descendants_fuel :: "nat \<Rightarrow> node list \<Rightarrow> string \<Rightarrow> node list" where
  "descendants_fuel 0 ns p = []"
| "descendants_fuel (Suc k) ns p =
     concat (map (\<lambda>c. c # descendants_fuel k ns (node_id c)) (children ns p))"

definition descendants :: "world \<Rightarrow> string \<Rightarrow> node list" where
  "descendants w p = descendants_fuel (length (nodes w)) (nodes w) p"

text \<open>\<^verbatim>\<open>node.ancestors()\<close>: the parent, its parent, and so on, with the same bound
  (lemma \<open>ancestors_fuel_enough\<close>).\<close>

fun ancestors_fuel :: "nat \<Rightarrow> node list \<Rightarrow> string \<Rightarrow> string list" where
  "ancestors_fuel 0 ns i = []"
| "ancestors_fuel (Suc k) ns i =
     (case find (\<lambda>n. node_id n = i) ns of
        None \<Rightarrow> []
      | Some n \<Rightarrow> (case node_parent n of
           None \<Rightarrow> []
         | Some p \<Rightarrow> p # ancestors_fuel k ns p))"

definition ancestors :: "world \<Rightarrow> string \<Rightarrow> string list" where
  "ancestors w i = ancestors_fuel (length (nodes w)) (nodes w) i"

definition connectedEdges :: "world \<Rightarrow> string \<Rightarrow> edge list" where
  "connectedEdges w i = filter (\<lambda>e. edge_source e = i \<or> edge_target e = i) (edges w)"

text \<open>A collection holds an element once: later copies of an edge are dropped.\<close>

function spawnUnique :: "edge list \<Rightarrow> edge list" where
  "spawnUnique [] = []"
| "spawnUnique (e # es) = e # spawnUnique (filter (\<lambda>e'. edge_id e' \<noteq> edge_id e) es)"
  by pat_completeness auto
termination
  by (relation "measure length") (auto simp: less_Suc_eq_le)

definition connectedEdgesOf :: "world \<Rightarrow> node list \<Rightarrow> edge list" where
  "connectedEdgesOf w ds = spawnUnique (concat (map (\<lambda>d. connectedEdges w (node_id d)) ds))"

definition positionOf :: "world \<Rightarrow> string \<Rightarrow> pos" where
  "positionOf w i = (case getNode w i of Some n \<Rightarrow> node_position n | None \<Rightarrow> (0, 0))"

definition setPosition :: "string \<Rightarrow> pos \<Rightarrow> world \<Rightarrow> world" where
  "setPosition i p w =
     w\<lparr>nodes := map (\<lambda>n. if node_id n = i then n\<lparr>node_position := p\<rparr> else n) (nodes w)\<rparr>"

text \<open>
  Between two calls of the engine its caller, or a layout run, may move nodes.
  \<^verbatim>\<open>cy.nodes().positions(f)\<close> puts every node at the position \<open>f\<close> gives for its
  identifier and changes nothing else.
\<close>

definition setPositions :: "(string \<Rightarrow> pos) \<Rightarrow> world \<Rightarrow> world" where
  "setPositions f w = w\<lparr>nodes := map (\<lambda>n. n\<lparr>node_position := f (node_id n)\<rparr>) (nodes w)\<rparr>"

text \<open>
  \<^verbatim>\<open>cy.add\<close> of an edge: the store refuses an identifier that is in use, and an edge whose
  source or target is unspecified or names no element. \<^verbatim>\<open>cy.remove\<close> is modelled for
  edges, the only elements the engine removes in a well-formed graph (see \<open>wellFormed\<close>).
\<close>

definition cyAddEdge :: "world \<Rightarrow> string \<Rightarrow> string option \<Rightarrow> string option \<Rightarrow> world" where
  "cyAddEdge w i src tgt =
     (case (src, tgt) of
        (Some s, Some t) \<Rightarrow>
          if hasElementWithId w i \<or> \<not> hasElementWithId w s \<or> \<not> hasElementWithId w t then w
          else w\<lparr>edges := edges w @
                 [\<lparr>edge_id = i, edge_source = s, edge_target = t,
                   edge_isProjection = True, edge_hidden = False\<rparr>]\<rparr>
      | _ \<Rightarrow> w)"

definition cyRemoveEdge :: "string \<Rightarrow> world \<Rightarrow> world" where
  "cyRemoveEdge i w = w\<lparr>edges := filter (\<lambda>e. edge_id e \<noteq> i) (edges w)\<rparr>"

subsection \<open>Strings\<close>

text \<open>\<^verbatim>\<open>String(n)\<close> for a counter, and \<^verbatim>\<open>key.split(':')\<close>.\<close>

fun stringOfNat :: "nat \<Rightarrow> string" where
  "stringOfNat n =
     (if n < 10 then [''0123456789'' ! n]
      else stringOfNat (n div 10) @ [''0123456789'' ! (n mod 10)])"

fun split :: "char \<Rightarrow> string \<Rightarrow> string list" where
  "split sep [] = [[]]"
| "split sep (c # cs) =
     (if c = sep then [] # split sep cs
      else (case split sep cs of
              [] \<Rightarrow> [[c]]
            | h # t \<Rightarrow> (c # h) # t))"

section \<open>Visibility helpers\<close>

definition setDataHidden :: "bool \<Rightarrow> string \<Rightarrow> world \<Rightarrow> world" where
  "setDataHidden b i w =
     w\<lparr>nodes := map (\<lambda>n. if node_id n = i then n\<lparr>node_hidden := b\<rparr> else n) (nodes w),
       edges := map (\<lambda>e. if edge_id e = i then e\<lparr>edge_hidden := b\<rparr> else e) (edges w)\<rparr>"

definition hideElement :: "string \<Rightarrow> world \<Rightarrow> world" where
  "hideElement i w = (setDataHidden True i w)\<lparr>hiddenIds := insert i (hiddenIds w)\<rparr>"

definition showElement :: "string \<Rightarrow> world \<Rightarrow> world" where
  "showElement i w = (setDataHidden False i w)\<lparr>hiddenIds := hiddenIds w - {i}\<rparr>"

definition dataHidden :: "world \<Rightarrow> string \<Rightarrow> bool" where
  "dataHidden w i =
     (case getNode w i of
        Some n \<Rightarrow> node_hidden n
      | None \<Rightarrow> (case getEdge w i of Some e \<Rightarrow> edge_hidden e | None \<Rightarrow> False))"

definition isHiddenEle :: "world \<Rightarrow> string \<Rightarrow> bool" where
  "isHiddenEle w i = (i \<in> hiddenIds w \<or> dataHidden w i)"

section \<open>Position management\<close>

definition saveLocalPositions :: "world \<Rightarrow> string \<Rightarrow> node list \<Rightarrow> world" where
  "saveLocalPositions w parent ds =
     (let parentPos = positionOf w parent;
          positions = fold (\<lambda>child m.
                        m(node_id child \<mapsto>
                          (fst (node_position child) - fst parentPos,
                           snd (node_position child) - snd parentPos)))
                      ds Map.empty
      in w\<lparr>savedPositionsMap := (savedPositionsMap w)(parent \<mapsto> positions)\<rparr>)"

text \<open>
  With \<^verbatim>\<open>opts.animate\<close> the new position is handed to \<^verbatim>\<open>child.animate\<close>, which moves
  the child later; the request is logged in \<open>animations\<close> and the position is not written.
\<close>

definition restoreChild :: "opts \<Rightarrow> pos \<Rightarrow> (string \<rightharpoonup> pos) \<Rightarrow> node \<Rightarrow> world \<Rightarrow> world" where
  "restoreChild opts parentPos positions child w =
     (case positions (node_id child) of
        None \<Rightarrow> w
      | Some localPos \<Rightarrow>
          (let newPos = (fst parentPos + fst localPos, snd parentPos + snd localPos)
           in if animate opts then w\<lparr>animations := animations w @ [(node_id child, newPos)]\<rparr>
              else setPosition (node_id child) newPos w))"

definition restoreLocalPositions :: "opts \<Rightarrow> world \<Rightarrow> string \<Rightarrow> world" where
  "restoreLocalPositions opts w parent =
     (case savedPositionsMap w parent of
        None \<Rightarrow> w
      | Some positions \<Rightarrow>
          (let parentPos = positionOf w parent;
               w' = fold (restoreChild opts parentPos positions) (children (nodes w) parent) w
           in w'\<lparr>savedPositionsMap := (savedPositionsMap w')(parent := None)\<rparr>))"

section \<open>Edge projection\<close>

text \<open>
  The two nested \<^verbatim>\<open>forEach\<close> loops of \<^verbatim>\<open>createProjections\<close> carry the set of edges seen
  and the lists of internal and external edges.
\<close>

definition classifyEdge ::
  "string set \<Rightarrow> edge \<Rightarrow> string set \<times> edge list \<times> edge list
     \<Rightarrow> string set \<times> edge list \<times> edge list" where
  "classifyEdge descendantIds e acc =
     (case acc of (seenEdges, internalEdges, externalEdges) \<Rightarrow>
        if edge_id e \<in> seenEdges then acc
        else
          (let seen' = insert (edge_id e) seenEdges;
               sourceIn = (edge_source e \<in> descendantIds);
               targetIn = (edge_target e \<in> descendantIds)
           in if sourceIn \<and> targetIn then (seen', internalEdges @ [e], externalEdges)
              else if sourceIn \<noteq> targetIn then (seen', internalEdges, externalEdges @ [e])
              else (seen', internalEdges, externalEdges)))"

definition classifyEdges ::
  "world \<Rightarrow> string set \<Rightarrow> node list \<Rightarrow> string set \<times> edge list \<times> edge list" where
  "classifyEdges w descendantIds ds =
     fold (\<lambda>n acc. fold (classifyEdge descendantIds) (connectedEdges w (node_id n)) acc)
          ds ({}, [], [])"

text \<open>\<^verbatim>\<open>groups\<close> is a JavaScript Map from the key string to the edges of the group; it is
  iterated in insertion order.\<close>

fun groupsPush :: "string \<Rightarrow> edge \<Rightarrow> (string \<times> edge list) list \<Rightarrow> (string \<times> edge list) list" where
  "groupsPush key e [] = [(key, [e])]"
| "groupsPush key e ((k, es) # gs) =
     (if k = key then (k, es @ [e]) # gs else (k, es) # groupsPush key e gs)"

definition groupEdge ::
  "string set \<Rightarrow> edge \<Rightarrow> (string \<times> edge list) list \<Rightarrow> (string \<times> edge list) list" where
  "groupEdge descendantIds e groups =
     (let sourceId = edge_source e; targetId = edge_target e
      in if sourceId \<in> descendantIds \<and> targetId \<notin> descendantIds
         then groupsPush (''out:'' @ targetId) e groups
         else if sourceId \<notin> descendantIds \<and> targetId \<in> descendantIds
         then groupsPush (''in:'' @ sourceId) e groups
         else groups)"

definition groupEdges :: "string set \<Rightarrow> edge list \<Rightarrow> (string \<times> edge list) list" where
  "groupEdges descendantIds externalEdges = fold (groupEdge descendantIds) externalEdges []"

text \<open>
  \<^verbatim>\<open>const [direction, externalId] = key.split(':')\<close> takes the first two pieces of the key;
  \<open>externalId\<close> is undefined (\<open>None\<close>) when there is no second piece.
\<close>

definition keyDirection :: "string \<Rightarrow> string" where
  "keyDirection key = (case split CHR '':'' key of [] \<Rightarrow> [] | d # _ \<Rightarrow> d)"

definition keyExternalId :: "string \<Rightarrow> string option" where
  "keyExternalId key = (case split CHR '':'' key of _ # x # _ \<Rightarrow> Some x | _ \<Rightarrow> None)"

definition projectionId :: "string \<Rightarrow> nat \<Rightarrow> string" where
  "projectionId parentId projCounter = ''_proj_'' @ parentId @ ''_'' @ stringOfNat projCounter"

fun addProjections ::
  "string \<Rightarrow> (string \<times> edge list) list \<Rightarrow> nat \<Rightarrow> world \<times> string list \<Rightarrow> world \<times> string list" where
  "addProjections parentId [] projCounter acc = acc"
| "addProjections parentId ((key, es) # groups) projCounter (w, ids) =
     (let direction = keyDirection key;
          externalId = keyExternalId key;
          projId = projectionId parentId projCounter;
          source = (if direction = ''out'' then Some parentId else externalId);
          target = (if direction = ''out'' then externalId else Some parentId)
      in addProjections parentId groups (Suc projCounter)
           (cyAddEdge w projId source target, ids @ [projId]))"

definition createProjections :: "world \<Rightarrow> string \<Rightarrow> node list \<Rightarrow> world" where
  "createProjections w parentId ds =
     (let descendantIds = insert parentId (set (map node_id ds));
          classified = classifyEdges w descendantIds ds;
          internalEdges = fst (snd classified);
          externalEdges = snd (snd classified);
          w1 = fold (\<lambda>e. hideElement (edge_id e)) internalEdges w;
          groups = groupEdges descendantIds externalEdges;
          added = addProjections parentId groups 0 (w1, []);
          w2 = fst added
      in w2\<lparr>projectionEdgesMap := (projectionEdgesMap w2)
              (parentId \<mapsto> \<lparr>projIds = snd added, originalIds = map edge_id externalEdges\<rparr>)\<rparr>)"

definition removeProjections :: "world \<Rightarrow> string \<Rightarrow> world" where
  "removeProjections w parent =
     (case projectionEdgesMap w parent of
        None \<Rightarrow> w
      | Some d \<Rightarrow>
          (let w' = fold cyRemoveEdge (projIds d) w
           in w'\<lparr>projectionEdgesMap := (projectionEdgesMap w')(parent := None)\<rparr>))"

section \<open>Collapse and expand\<close>

definition collapse :: "opts \<Rightarrow> world \<Rightarrow> string \<Rightarrow> bool \<times> world" where
  "collapse opts w nodeId =
     (if \<not> isParent w nodeId then (False, w)
      else if nodeId \<in> collapsedIds w then (False, w)
      else
        (let ds = descendants w nodeId;
             w1 = saveLocalPositions w nodeId ds;
             w2 = fold (\<lambda>d. hideElement (node_id d)) ds w1;
             descendantIds = map node_id ds;
             w3 = fold (\<lambda>e. hideElement (edge_id e)) (connectedEdgesOf w2 ds) w2;
             w4 = w3\<lparr>hiddenElementsMap := (hiddenElementsMap w3)(nodeId \<mapsto> descendantIds)\<rparr>;
             w5 = createProjections w4 nodeId ds;
             w6 = w5\<lparr>collapsedIds := insert nodeId (collapsedIds w5)\<rparr>
         in (True, w6\<lparr>emitted := emitted w6 @ [CollapseEvent nodeId]\<rparr>)))"

text \<open>The body of the loop of \<^verbatim>\<open>expand\<close> over the recorded descendant ids.\<close>

definition showEdgeIfVisible :: "edge \<Rightarrow> world \<Rightarrow> world" where
  "showEdgeIfVisible e w =
     (if \<not> isHiddenEle w (edge_source e) \<and> \<not> isHiddenEle w (edge_target e)
         \<and> \<not> edge_isProjection e
      then showElement (edge_id e) w else w)"

definition showDescendant :: "string \<Rightarrow> string \<Rightarrow> world \<Rightarrow> world" where
  "showDescendant nodeId i w =
     (case getNode w i of
        None \<Rightarrow> (if getEdge w i \<noteq> None then showElement i w else w)
      | Some ele \<Rightarrow>
          (if node_parent ele = None \<or> node_parent ele = Some nodeId
              \<or> the (node_parent ele) \<notin> collapsedIds w
           then (let w1 = showElement i w
                 in fold showEdgeIfVisible (connectedEdges w1 i) w1)
           else w))"

definition expand :: "opts \<Rightarrow> world \<Rightarrow> string \<Rightarrow> bool \<times> world" where
  "expand opts w nodeId =
     (if nodeId \<notin> collapsedIds w then (False, w)
      else
        (let descendantIds = (case hiddenElementsMap w nodeId of None \<Rightarrow> [] | Some ids \<Rightarrow> ids);
             w1 = fold (showDescendant nodeId) descendantIds w;
             w2 = removeProjections w1 nodeId;
             w3 = restoreLocalPositions opts w2 nodeId;
             w4 = w3\<lparr>collapsedIds := collapsedIds w3 - {nodeId},
                    hiddenElementsMap := (hiddenElementsMap w3)(nodeId := None)\<rparr>
         in (True, w4\<lparr>emitted := emitted w4 @ [ExpandEvent nodeId]\<rparr>)))"

definition isCollapsedNode :: "world \<Rightarrow> string \<Rightarrow> bool" where
  "isCollapsedNode w i = (i \<in> collapsedIds w)"

text \<open>
  The public methods of \<^verbatim>\<open>createCore\<close> run the operation on every node given and return
  the API object for chaining; the boolean of the inner call only decides whether a layout
  is scheduled. Scheduling goes through a timer and is outside the model, so the methods
  are modelled with automatic layout off, which is the default.
\<close>

definition apiCollapse :: "opts \<Rightarrow> world \<Rightarrow> string list \<Rightarrow> world" where
  "apiCollapse opts w nodeList = fold (\<lambda>n w'. snd (collapse opts w' n)) nodeList w"

definition apiExpand :: "opts \<Rightarrow> world \<Rightarrow> string list \<Rightarrow> world" where
  "apiExpand opts w nodeList = fold (\<lambda>n w'. snd (expand opts w' n)) nodeList w"

definition getProjectedEdges :: "world \<Rightarrow> string \<Rightarrow> edge list" where
  "getProjectedEdges w i =
     (case projectionEdgesMap w i of
        None \<Rightarrow> []
      | Some d \<Rightarrow> concat (map (\<lambda>p. case getEdge w p of None \<Rightarrow> [] | Some e \<Rightarrow> [e]) (projIds d)))"

section \<open>Overlap resolution\<close>

text \<open>
  \<^verbatim>\<open>n.boundingBox()\<close> belongs to the graph store: it is a parameter \<open>boundingBox\<close> of the
  functions below, giving the box of a node from its current record.
\<close>

record bbox =
  bb_x1 :: real
  bb_y1 :: real
  bb_x2 :: real
  bb_y2 :: real

record overlap =
  overlapX :: real
  overlapY :: real
  overlapDx :: real
  overlapDy :: real

definition getVisibleNodes :: "world \<Rightarrow> node list" where
  "getVisibleNodes w = filter (\<lambda>n. \<not> isHiddenEle w (node_id n)) (nodes w)"

definition boxesOverlap :: "bbox \<Rightarrow> bbox \<Rightarrow> bool" where
  "boxesOverlap bb1 bb2 =
     (\<not> (bb_x2 bb1 < bb_x1 bb2 \<or> bb_x1 bb1 > bb_x2 bb2
          \<or> bb_y2 bb1 < bb_y1 bb2 \<or> bb_y1 bb1 > bb_y2 bb2))"

definition calculateOverlap :: "(node \<Rightarrow> bbox) \<Rightarrow> node \<Rightarrow> node \<Rightarrow> overlap option" where
  "calculateOverlap boundingBox n1 n2 =
     (let bb1 = boundingBox n1; bb2 = boundingBox n2
      in if \<not> boxesOverlap bb1 bb2 then None
         else Some \<lparr>overlapX = min (bb_x2 bb1) (bb_x2 bb2) - max (bb_x1 bb1) (bb_x1 bb2),
                    overlapY = min (bb_y2 bb1) (bb_y2 bb2) - max (bb_y1 bb1) (bb_y1 bb2),
                    overlapDx = (bb_x1 bb1 + bb_x2 bb1) / 2 - (bb_x1 bb2 + bb_x2 bb2) / 2,
                    overlapDy = (bb_y1 bb1 + bb_y2 bb1) / 2 - (bb_y1 bb2 + bb_y2 bb2) / 2\<rparr>)"

definition separateNodes :: "world \<Rightarrow> string \<Rightarrow> string \<Rightarrow> overlap \<Rightarrow> real \<Rightarrow> world" where
  "separateNodes w n1 n2 ov padding =
     (let horizontally = (overlapX ov < overlapY ov);
          moveX = (if horizontally
                   then (overlapX ov / 2 + padding) * (if overlapDx ov \<ge> 0 then 1 else - 1)
                   else 0);
          moveY = (if horizontally then 0
                   else (overlapY ov / 2 + padding) * (if overlapDy ov \<ge> 0 then 1 else - 1));
          pos1 = positionOf w n1;
          pos2 = positionOf w n2;
          w1 = setPosition n1 (fst pos1 + moveX, snd pos1 + moveY) w
      in setPosition n2 (fst pos2 - moveX, snd pos2 - moveY) w1)"

text \<open>
  The arrays of the two scans hold node handles; what a handle shows (ancestors, bounding
  box, position) is read from the world at the moment of the access.
\<close>

definition visibleLeaves :: "world \<Rightarrow> string list" where
  "visibleLeaves w = map node_id (filter (\<lambda>n. \<not> isParent w (node_id n)) (getVisibleNodes w))"

definition related :: "world \<Rightarrow> string \<Rightarrow> string \<Rightarrow> bool" where
  "related w i j = (j \<in> set (ancestors w i) \<or> i \<in> set (ancestors w j))"

definition nodeOverlap :: "(node \<Rightarrow> bbox) \<Rightarrow> world \<Rightarrow> string \<Rightarrow> string \<Rightarrow> overlap option" where
  "nodeOverlap boundingBox w i j =
     (case getNode w i of
        None \<Rightarrow> None
      | Some n1 \<Rightarrow> (case getNode w j of
           None \<Rightarrow> None
         | Some n2 \<Rightarrow> calculateOverlap boundingBox n1 n2))"

fun hasOverlapsFrom :: "(node \<Rightarrow> bbox) \<Rightarrow> world \<Rightarrow> string \<Rightarrow> string list \<Rightarrow> bool" where
  "hasOverlapsFrom boundingBox w i [] = False"
| "hasOverlapsFrom boundingBox w i (j # js) =
     (if related w i j then hasOverlapsFrom boundingBox w i js
      else if nodeOverlap boundingBox w i j \<noteq> None then True
      else hasOverlapsFrom boundingBox w i js)"

fun hasOverlapsIn :: "(node \<Rightarrow> bbox) \<Rightarrow> world \<Rightarrow> string list \<Rightarrow> bool" where
  "hasOverlapsIn boundingBox w [] = False"
| "hasOverlapsIn boundingBox w (i # rest) =
     (if hasOverlapsFrom boundingBox w i rest then True
      else hasOverlapsIn boundingBox w rest)"

definition hasOverlaps :: "(node \<Rightarrow> bbox) \<Rightarrow> world \<Rightarrow> bool" where
  "hasOverlaps boundingBox w = hasOverlapsIn boundingBox w (visibleLeaves w)"

text \<open>One pass of \<^verbatim>\<open>resolveOverlaps\<close>: the inner loop over \<open>j\<close>, then the outer one over
  \<open>i\<close>, carrying the world and the flag \<open>hasOverlap\<close>.\<close>

fun separateFrom ::
  "(node \<Rightarrow> bbox) \<Rightarrow> real \<Rightarrow> string \<Rightarrow> string list \<Rightarrow> world \<times> bool \<Rightarrow> world \<times> bool" where
  "separateFrom boundingBox padding i [] acc = acc"
| "separateFrom boundingBox padding i (j # js) (w, hasOverlap) =
     separateFrom boundingBox padding i js
       (if related w i j then (w, hasOverlap)
        else (case nodeOverlap boundingBox w i j of
                None \<Rightarrow> (w, hasOverlap)
              | Some ov \<Rightarrow> (separateNodes w i j ov padding, True)))"

fun separateIn ::
  "(node \<Rightarrow> bbox) \<Rightarrow> real \<Rightarrow> string list \<Rightarrow> world \<times> bool \<Rightarrow> world \<times> bool" where
  "separateIn boundingBox padding [] acc = acc"
| "separateIn boundingBox padding (i # rest) acc =
     separateIn boundingBox padding rest (separateFrom boundingBox padding i rest acc)"

definition resolvePass :: "(node \<Rightarrow> bbox) \<Rightarrow> real \<Rightarrow> world \<Rightarrow> world \<times> bool" where
  "resolvePass boundingBox padding w =
     separateIn boundingBox padding (visibleLeaves w) (w, False)"

function resolveLoop ::
  "(node \<Rightarrow> bbox) \<Rightarrow> real \<Rightarrow> nat \<Rightarrow> world \<Rightarrow> bool \<Rightarrow> nat \<Rightarrow> world \<times> bool \<times> nat" where
  "resolveLoop boundingBox padding maxIter w hasOverlap iterations =
     (if hasOverlap \<and> iterations < maxIter
      then (let r = resolvePass boundingBox padding w
            in resolveLoop boundingBox padding maxIter (fst r) (snd r) (Suc iterations))
      else (w, hasOverlap, iterations))"
  by pat_completeness auto
termination
  by (relation "measure (\<lambda>(boundingBox, padding, maxIter, w, hasOverlap, iterations).
                           maxIter - iterations)") auto

text \<open>\<^verbatim>\<open>opts.maxIterations || 50\<close> and \<^verbatim>\<open>opts.overlapPadding || 10\<close>: a missing option and
  a zero both give the default. A pass count is a natural number.\<close>

definition maxIterationsOf :: "opts \<Rightarrow> nat" where
  "maxIterationsOf opts =
     (case maxIterations opts of None \<Rightarrow> 50 | Some m \<Rightarrow> if m = 0 then 50 else m)"

definition paddingOf :: "opts \<Rightarrow> real" where
  "paddingOf opts =
     (case overlapPadding opts of None \<Rightarrow> 10 | Some p \<Rightarrow> if p = 0 then 10 else p)"

text \<open>The loop of \<^verbatim>\<open>resolveOverlaps\<close>, giving the world, the flag and the number of passes
  made, and the function itself, which decides on the result and the notification.\<close>

definition resolveRun :: "(node \<Rightarrow> bbox) \<Rightarrow> opts \<Rightarrow> world \<Rightarrow> world \<times> bool \<times> nat" where
  "resolveRun boundingBox opts w =
     resolveLoop boundingBox (paddingOf opts) (maxIterationsOf opts) w True 0"

definition resolveOverlaps :: "(node \<Rightarrow> bbox) \<Rightarrow> opts \<Rightarrow> world \<Rightarrow> bool \<times> world" where
  "resolveOverlaps boundingBox opts w =
     (let r = resolveRun boundingBox opts w;
          w' = fst r;
          iterations = snd (snd r)
      in if iterations \<ge> maxIterationsOf opts \<and> hasOverlaps boundingBox w'
         then (False, w'\<lparr>emitted := emitted w' @ [LayoutResetRequired]\<rparr>)
         else (True, w'))"

text \<open>The world after a number of passes.\<close>

fun afterPasses :: "(node \<Rightarrow> bbox) \<Rightarrow> real \<Rightarrow> nat \<Rightarrow> world \<Rightarrow> world" where
  "afterPasses boundingBox padding 0 w = w"
| "afterPasses boundingBox padding (Suc k) w =
     fst (resolvePass boundingBox padding (afterPasses boundingBox padding k w))"

section \<open>Well-formed graphs and reachable states\<close>

text \<open>
  What the graph store guarantees of its elements: identifiers are unique over nodes and
  edges, a parent reference names a node, no node is its own descendant, and the endpoints
  of an edge are nodes. Besides, the identifiers that start with \<^verbatim>\<open>_proj_\<close> are taken to
  be reserved for the projection edges of the engine: no node carries one, so that a
  recorded projection identifier never names a node and \<^verbatim>\<open>cy.remove\<close> is only applied to
  edges.
\<close>

definition nodeIds :: "world \<Rightarrow> string list" where
  "nodeIds w = map node_id (nodes w)"

definition isProjectionId :: "string \<Rightarrow> bool" where
  "isProjectionId i = (take 6 i = ''_proj_'')"

definition wellFormed :: "world \<Rightarrow> bool" where
  "wellFormed w =
     (distinct (map node_id (nodes w) @ map edge_id (edges w))
      \<and> (\<forall>n \<in> set (nodes w). case node_parent n of
                                  None \<Rightarrow> True
                                | Some p \<Rightarrow> p \<in> set (nodeIds w))
      \<and> (\<forall>n \<in> set (nodes w). node_id n \<notin> set (map node_id (descendants w (node_id n))))
      \<and> (\<forall>e \<in> set (edges w). edge_source e \<in> set (nodeIds w)
                                \<and> edge_target e \<in> set (nodeIds w))
      \<and> (\<forall>n \<in> set (nodes w). \<not> isProjectionId (node_id n)))"

text \<open>The states the engine reaches from a first one by collapsing and expanding.\<close>

inductive reachable :: "opts \<Rightarrow> world \<Rightarrow> world \<Rightarrow> bool" for opts :: opts and w0 :: world where
  reachable_init: "reachable opts w0 w0"
| reachable_collapse: "reachable opts w0 w \<Longrightarrow> reachable opts w0 (snd (collapse opts w n))"
| reachable_expand: "reachable opts w0 w \<Longrightarrow> reachable opts w0 (snd (expand opts w n))"

section \<open>Views of the world used in the statements\<close>

text \<open>
  The hierarchy is what the nodes say about identity and parenthood; the wiring is what the
  edges say about identity and endpoints; the placement is where the nodes are. Hiding and
  showing change none of the three.
\<close>

type_synonym hierarchy = "(string \<times> string option) list"

definition shape :: "node \<Rightarrow> string \<times> string option" where
  "shape n = (node_id n, node_parent n)"

definition hierarchy :: "world \<Rightarrow> hierarchy" where
  "hierarchy w = map shape (nodes w)"

definition wire :: "edge \<Rightarrow> string \<times> string \<times> string" where
  "wire e = (edge_id e, edge_source e, edge_target e)"

definition wiring :: "world \<Rightarrow> (string \<times> string \<times> string) list" where
  "wiring w = map wire (edges w)"

definition placed :: "node \<Rightarrow> string \<times> pos" where
  "placed n = (node_id n, node_position n)"

definition placement :: "world \<Rightarrow> (string \<times> pos) list" where
  "placement w = map placed (nodes w)"

definition childIds :: "hierarchy \<Rightarrow> string \<Rightarrow> string list" where
  "childIds h p = map fst (filter (\<lambda>s. snd s = Some p) h)"

fun descIds :: "nat \<Rightarrow> hierarchy \<Rightarrow> string \<Rightarrow> string list" where
  "descIds 0 h p = []"
| "descIds (Suc k) h p = concat (map (\<lambda>c. c # descIds k h c) (childIds h p))"

definition descendantIds :: "world \<Rightarrow> string \<Rightarrow> string list" where
  "descendantIds w p = map node_id (descendants w p)"

definition parentOf :: "hierarchy \<Rightarrow> string \<Rightarrow> string option" where
  "parentOf h i = (case map_of h i of Some (Some p) \<Rightarrow> Some p | _ \<Rightarrow> None)"

text \<open>The ancestor \<open>k\<close> steps above a node, when there is one.\<close>

fun up :: "hierarchy \<Rightarrow> nat \<Rightarrow> string \<Rightarrow> string option" where
  "up h 0 i = Some i"
| "up h (Suc k) i = (case parentOf h i of None \<Rightarrow> None | Some p \<Rightarrow> up h k p)"

text \<open>An edge touches a set of nodes when one of its endpoints is in the set.\<close>

definition touches :: "string set \<Rightarrow> edge \<Rightarrow> bool" where
  "touches S e = (edge_source e \<in> S \<or> edge_target e \<in> S)"

definition boundary :: "string set \<Rightarrow> edge \<Rightarrow> bool" where
  "boundary S e = ((edge_source e \<in> S) \<noteq> (edge_target e \<in> S))"

definition internal :: "string set \<Rightarrow> edge \<Rightarrow> bool" where
  "internal S e = (edge_source e \<in> S \<and> edge_target e \<in> S)"

text \<open>The key under which \<^verbatim>\<open>createProjections\<close> files a boundary edge.\<close>

definition groupKey :: "string set \<Rightarrow> edge \<Rightarrow> string" where
  "groupKey S e =
     (if edge_source e \<in> S then ''out:'' @ edge_target e else ''in:'' @ edge_source e)"

text \<open>
  The world in which \<open>collapse\<close> calls \<^verbatim>\<open>createProjections\<close> (positions saved, descendants
  and their edges hidden, descendant ids recorded), and the groups built there.
\<close>

definition hideSubtree :: "world \<Rightarrow> string \<Rightarrow> world" where
  "hideSubtree w nodeId =
     (let ds = descendants w nodeId;
          w1 = saveLocalPositions w nodeId ds;
          w2 = fold (\<lambda>d. hideElement (node_id d)) ds w1;
          w3 = fold (\<lambda>e. hideElement (edge_id e)) (connectedEdgesOf w2 ds) w2
      in w3\<lparr>hiddenElementsMap := (hiddenElementsMap w3)(nodeId \<mapsto> map node_id ds)\<rparr>)"

definition projectionGroups :: "world \<Rightarrow> string \<Rightarrow> (string \<times> edge list) list" where
  "projectionGroups w nodeId =
     (let ds = descendants w nodeId;
          descendantIds = insert nodeId (set (map node_id ds))
      in groupEdges descendantIds
           (snd (snd (classifyEdges (hideSubtree w nodeId) descendantIds ds))))"

text \<open>The descendant ids a collapse record of the engine refers to.\<close>

definition recordIds :: "world \<Rightarrow> string \<Rightarrow> string set" where
  "recordIds w n =
     (case hiddenElementsMap w n of None \<Rightarrow> {} | Some ids \<Rightarrow> set ids)
     \<union> (case savedPositionsMap w n of None \<Rightarrow> {} | Some m \<Rightarrow> dom m)"

section \<open>Example graphs\<close>

definition mkNode :: "string \<Rightarrow> string option \<Rightarrow> pos \<Rightarrow> node" where
  "mkNode i p xy = \<lparr>node_id = i, node_parent = p, node_position = xy, node_hidden = False\<rparr>"

definition mkEdge :: "string \<Rightarrow> string \<Rightarrow> string \<Rightarrow> edge" where
  "mkEdge i s t =
     \<lparr>edge_id = i, edge_source = s, edge_target = t,
      edge_isProjection = False, edge_hidden = False\<rparr>"

definition defaultOpts :: opts where
  "defaultOpts = \<lparr>animate = True, maxIterations = None, overlapPadding = None\<rparr>"

definition plainOpts :: opts where
  "plainOpts = \<lparr>animate = False, maxIterations = None, overlapPadding = None\<rparr>"

text \<open>The graphs of the repository's tests: \<^verbatim>\<open>createTestGraph\<close> and \<^verbatim>\<open>createNestedGraph\<close>.\<close>

definition testGraph :: world where
  "testGraph = initial
     [mkNode ''parent1'' None (50, 50), mkNode ''parent2'' None (0, 0),
      mkNode ''child1'' (Some ''parent1'') (100, 200), mkNode ''child2'' (Some ''parent1'') (0, 0),
      mkNode ''child3'' (Some ''parent2'') (0, 0), mkNode ''external1'' None (0, 0)]
     [mkEdge ''e1'' ''child1'' ''external1'', mkEdge ''e2'' ''child2'' ''external1'',
      mkEdge ''e3'' ''child3'' ''child1'']"

definition nestedGraph :: world where
  "nestedGraph = initial
     [mkNode ''grandparent'' None (0, 0), mkNode ''parent'' (Some ''grandparent'') (0, 0),
      mkNode ''child'' (Some ''parent'') (0, 0), mkNode ''external'' None (0, 0)]
     [mkEdge ''e1'' ''child'' ''external'']"

text \<open>A hierarchy four levels deep: \<open>a\<close> holds \<open>i\<close>, which holds \<open>p\<close>, which holds \<open>d\<close>.\<close>

definition deepGraph :: world where
  "deepGraph = initial
     [mkNode ''a'' None (0, 0), mkNode ''i'' (Some ''a'') (0, 0),
      mkNode ''p'' (Some ''i'') (0, 0), mkNode ''d'' (Some ''p'') (0, 0)] []"

text \<open>External nodes \<open>a\<close> and \<open>a:b\<close>, each the target of an edge from the child of \<open>P\<close>.\<close>

definition colonGraph :: world where
  "colonGraph = initial
     [mkNode ''P'' None (0, 0), mkNode ''c'' (Some ''P'') (0, 0),
      mkNode ''a'' None (0, 0), mkNode ''a:b'' None (0, 0)]
     [mkEdge ''e1'' ''c'' ''a'', mkEdge ''e2'' ''c'' ''a:b'']"

text \<open>A compound \<open>P\<close> with an edge of its own to the outside, and with a loop on itself.\<close>

definition ownEdgeGraph :: world where
  "ownEdgeGraph = initial
     [mkNode ''P'' None (0, 0), mkNode ''c'' (Some ''P'') (0, 0), mkNode ''X'' None (0, 0)]
     [mkEdge ''e1'' ''P'' ''X'', mkEdge ''e2'' ''c'' ''X'', mkEdge ''e3'' ''P'' ''P'',
      mkEdge ''e4'' ''P'' ''c'', mkEdge ''e5'' ''X'' ''c'']"

text \<open>The nested graph after \<open>collapse parent\<close> and \<open>collapse grandparent\<close>, and the test
  graph after \<open>collapse parent1\<close> and \<open>collapse parent2\<close>.\<close>

definition nestedCollapsed :: world where
  "nestedCollapsed =
     snd (collapse plainOpts (snd (collapse plainOpts nestedGraph ''parent'')) ''grandparent'')"

definition bothCollapsed :: world where
  "bothCollapsed =
     snd (collapse plainOpts (snd (collapse plainOpts testGraph ''parent1'')) ''parent2'')"

text \<open>The graph of the layout tests, with boxes of 30 by 30 around the positions.\<close>

definition layoutGraph :: world where
  "layoutGraph = initial
     [mkNode ''parent'' None (100, 100), mkNode ''child1'' (Some ''parent'') (100, 100),
      mkNode ''child2'' (Some ''parent'') (105, 105), mkNode ''child3'' (Some ''parent'') (200, 200),
      mkNode ''external'' None (300, 100)]
     [mkEdge ''e1'' ''child1'' ''external'']"

text \<open>A store that gives every node the same empty box, as a headless one does, and
  options that allow three passes.\<close>

definition fixedBox :: "node \<Rightarrow> bbox" where
  "fixedBox n = \<lparr>bb_x1 = 0, bb_y1 = 0, bb_x2 = 0, bb_y2 = 0\<rparr>"

definition cappedOpts :: opts where
  "cappedOpts = \<lparr>animate = False, maxIterations = Some 3, overlapPadding = None\<rparr>"



definition squareBox :: "node \<Rightarrow> bbox" where
  "squareBox n =
     \<lparr>bb_x1 = fst (node_position n) - 15, bb_y1 = snd (node_position n) - 15,
      bb_x2 = fst (node_position n) + 15, bb_y2 = snd (node_position n) + 15\<rparr>"

declare stringOfNat.simps [simp del]
declare resolveLoop.simps [simp del]

section \<open>Auxiliary lemmas\<close>

subsection \<open>Lists\<close>

lemma find_map_keeps:
  assumes "\<And>x. P (f x) = P x"
  shows "find P (map f xs) = map_option f (find P xs)"
  using assms by (induction xs) auto

lemma find_Some_mem: "find P xs = Some x \<Longrightarrow> x \<in> set xs \<and> P x"
  by (induction xs) (auto split: if_splits)



subsection \<open>Hierarchy bridge\<close>

lemma hierarchy_length [simp]: "length (hierarchy w) = length (nodes w)"
  by (simp add: hierarchy_def)

lemma childIds_children: "map node_id (children ns p) = childIds (map shape ns) p"
  by (induction ns) (auto simp: children_def childIds_def shape_def)

lemma descIds_descendants_fuel:
  "map node_id (descendants_fuel k ns p) = descIds k (map shape ns) p"
proof (induction k arbitrary: p)
  case 0
  show ?case by simp
next
  case (Suc k)
  have "map node_id (descendants_fuel (Suc k) ns p)
        = concat (map (\<lambda>c. node_id c # descIds k (map shape ns) (node_id c)) (children ns p))"
    by (simp add: map_concat comp_def Suc)
  also have "\<dots> = concat (map (\<lambda>c. c # descIds k (map shape ns) c) (map node_id (children ns p)))"
    by (simp add: comp_def)
  finally show ?case
    by (simp add: childIds_children)
qed

lemma descendantIds_hierarchy:
  "descendantIds w p = descIds (length (hierarchy w)) (hierarchy w) p"
  by (simp add: descendantIds_def descendants_def descIds_descendants_fuel hierarchy_def)

lemma descendants_subset_nodes: "set (descendants_fuel k ns p) \<subseteq> set ns"
  by (induction k arbitrary: p) (auto simp: children_def)




subsection \<open>Frames of the basic operations\<close>

lemma map_if_keep:
  assumes "\<And>x. g (f x) = g x"
  shows "map g (map (\<lambda>x. if P x then f x else x) xs) = map g xs"
  using assms by (induction xs) auto

lemma view_update [simp]:
  "hierarchy (w\<lparr>emitted := x0\<rparr>) = hierarchy w"
  "hierarchy (w\<lparr>animations := x1\<rparr>) = hierarchy w"
  "hierarchy (w\<lparr>collapsedIds := x2\<rparr>) = hierarchy w"
  "hierarchy (w\<lparr>hiddenElementsMap := x3\<rparr>) = hierarchy w"
  "hierarchy (w\<lparr>savedPositionsMap := x4\<rparr>) = hierarchy w"
  "hierarchy (w\<lparr>projectionEdgesMap := x5\<rparr>) = hierarchy w"
  "hierarchy (w\<lparr>hiddenIds := x6\<rparr>) = hierarchy w"
  "wiring (w\<lparr>emitted := x0\<rparr>) = wiring w"
  "wiring (w\<lparr>animations := x1\<rparr>) = wiring w"
  "wiring (w\<lparr>collapsedIds := x2\<rparr>) = wiring w"
  "wiring (w\<lparr>hiddenElementsMap := x3\<rparr>) = wiring w"
  "wiring (w\<lparr>savedPositionsMap := x4\<rparr>) = wiring w"
  "wiring (w\<lparr>projectionEdgesMap := x5\<rparr>) = wiring w"
  "wiring (w\<lparr>hiddenIds := x6\<rparr>) = wiring w"
  "placement (w\<lparr>emitted := x0\<rparr>) = placement w"
  "placement (w\<lparr>animations := x1\<rparr>) = placement w"
  "placement (w\<lparr>collapsedIds := x2\<rparr>) = placement w"
  "placement (w\<lparr>hiddenElementsMap := x3\<rparr>) = placement w"
  "placement (w\<lparr>savedPositionsMap := x4\<rparr>) = placement w"
  "placement (w\<lparr>projectionEdgesMap := x5\<rparr>) = placement w"
  "placement (w\<lparr>hiddenIds := x6\<rparr>) = placement w"
  "hierarchy (w\<lparr>edges := es\<rparr>) = hierarchy w"
  "placement (w\<lparr>edges := es\<rparr>) = placement w"
  "wiring (w\<lparr>nodes := ns\<rparr>) = wiring w"
  by (simp_all add: hierarchy_def wiring_def placement_def)

lemma setDataHidden_frame [simp]:
  "hierarchy (setDataHidden b i w) = hierarchy w"
  "wiring (setDataHidden b i w) = wiring w"
  "placement (setDataHidden b i w) = placement w"
  "collapsedIds (setDataHidden b i w) = collapsedIds w"
  "hiddenElementsMap (setDataHidden b i w) = hiddenElementsMap w"
  "savedPositionsMap (setDataHidden b i w) = savedPositionsMap w"
  "projectionEdgesMap (setDataHidden b i w) = projectionEdgesMap w"
  "hiddenIds (setDataHidden b i w) = hiddenIds w"
  "emitted (setDataHidden b i w) = emitted w"
  "animations (setDataHidden b i w) = animations w"
  by (simp_all add: setDataHidden_def hierarchy_def wiring_def placement_def map_if_keep
        shape_def wire_def placed_def)

lemma hideElement_frame [simp]:
  "hierarchy (hideElement i w) = hierarchy w"
  "wiring (hideElement i w) = wiring w"
  "placement (hideElement i w) = placement w"
  "collapsedIds (hideElement i w) = collapsedIds w"
  "hiddenElementsMap (hideElement i w) = hiddenElementsMap w"
  "savedPositionsMap (hideElement i w) = savedPositionsMap w"
  "projectionEdgesMap (hideElement i w) = projectionEdgesMap w"
  "hiddenIds (hideElement i w) = insert i (hiddenIds w)"
  "emitted (hideElement i w) = emitted w"
  "animations (hideElement i w) = animations w"
  using setDataHidden_frame[of True i w]
  by (simp_all add: hideElement_def hierarchy_def wiring_def placement_def)

lemma showElement_frame [simp]:
  "hierarchy (showElement i w) = hierarchy w"
  "wiring (showElement i w) = wiring w"
  "placement (showElement i w) = placement w"
  "collapsedIds (showElement i w) = collapsedIds w"
  "hiddenElementsMap (showElement i w) = hiddenElementsMap w"
  "savedPositionsMap (showElement i w) = savedPositionsMap w"
  "projectionEdgesMap (showElement i w) = projectionEdgesMap w"
  "hiddenIds (showElement i w) = hiddenIds w - {i}"
  "emitted (showElement i w) = emitted w"
  "animations (showElement i w) = animations w"
  using setDataHidden_frame[of False i w]
  by (simp_all add: showElement_def hierarchy_def wiring_def placement_def)

lemma setPosition_frame [simp]:
  "hierarchy (setPosition i p w) = hierarchy w"
  "wiring (setPosition i p w) = wiring w"
  "edges (setPosition i p w) = edges w"
  "collapsedIds (setPosition i p w) = collapsedIds w"
  "hiddenElementsMap (setPosition i p w) = hiddenElementsMap w"
  "savedPositionsMap (setPosition i p w) = savedPositionsMap w"
  "projectionEdgesMap (setPosition i p w) = projectionEdgesMap w"
  "hiddenIds (setPosition i p w) = hiddenIds w"
  "emitted (setPosition i p w) = emitted w"
  "animations (setPosition i p w) = animations w"
  by (simp_all add: setPosition_def hierarchy_def wiring_def map_if_keep shape_def)

lemma cyAddEdge_frame [simp]:
  "nodes (cyAddEdge w i s t) = nodes w"
  "hierarchy (cyAddEdge w i s t) = hierarchy w"
  "placement (cyAddEdge w i s t) = placement w"
  "collapsedIds (cyAddEdge w i s t) = collapsedIds w"
  "hiddenElementsMap (cyAddEdge w i s t) = hiddenElementsMap w"
  "savedPositionsMap (cyAddEdge w i s t) = savedPositionsMap w"
  "projectionEdgesMap (cyAddEdge w i s t) = projectionEdgesMap w"
  "hiddenIds (cyAddEdge w i s t) = hiddenIds w"
  "emitted (cyAddEdge w i s t) = emitted w"
  "animations (cyAddEdge w i s t) = animations w"
  by (simp_all add: cyAddEdge_def hierarchy_def placement_def split: option.splits)

lemma cyRemoveEdge_frame [simp]:
  "nodes (cyRemoveEdge i w) = nodes w"
  "hierarchy (cyRemoveEdge i w) = hierarchy w"
  "placement (cyRemoveEdge i w) = placement w"
  "collapsedIds (cyRemoveEdge i w) = collapsedIds w"
  "hiddenElementsMap (cyRemoveEdge i w) = hiddenElementsMap w"
  "savedPositionsMap (cyRemoveEdge i w) = savedPositionsMap w"
  "projectionEdgesMap (cyRemoveEdge i w) = projectionEdgesMap w"
  "hiddenIds (cyRemoveEdge i w) = hiddenIds w"
  "emitted (cyRemoveEdge i w) = emitted w"
  "animations (cyRemoveEdge i w) = animations w"
  by (simp_all add: cyRemoveEdge_def hierarchy_def placement_def)

lemma saveLocalPositions_frame [simp]:
  "nodes (saveLocalPositions w n ds) = nodes w"
  "edges (saveLocalPositions w n ds) = edges w"
  "hierarchy (saveLocalPositions w n ds) = hierarchy w"
  "wiring (saveLocalPositions w n ds) = wiring w"
  "placement (saveLocalPositions w n ds) = placement w"
  "collapsedIds (saveLocalPositions w n ds) = collapsedIds w"
  "hiddenElementsMap (saveLocalPositions w n ds) = hiddenElementsMap w"
  "projectionEdgesMap (saveLocalPositions w n ds) = projectionEdgesMap w"
  "hiddenIds (saveLocalPositions w n ds) = hiddenIds w"
  "emitted (saveLocalPositions w n ds) = emitted w"
  "animations (saveLocalPositions w n ds) = animations w"
  by (simp_all add: saveLocalPositions_def hierarchy_def wiring_def placement_def Let_def)

text \<open>Folds of hiding.\<close>

lemma fold_hide_frame [simp]:
  "hierarchy (fold (\<lambda>x. hideElement (g x)) xs w) = hierarchy w"
  "wiring (fold (\<lambda>x. hideElement (g x)) xs w) = wiring w"
  "placement (fold (\<lambda>x. hideElement (g x)) xs w) = placement w"
  "collapsedIds (fold (\<lambda>x. hideElement (g x)) xs w) = collapsedIds w"
  "hiddenElementsMap (fold (\<lambda>x. hideElement (g x)) xs w) = hiddenElementsMap w"
  "savedPositionsMap (fold (\<lambda>x. hideElement (g x)) xs w) = savedPositionsMap w"
  "projectionEdgesMap (fold (\<lambda>x. hideElement (g x)) xs w) = projectionEdgesMap w"
  "hiddenIds (fold (\<lambda>x. hideElement (g x)) xs w) = hiddenIds w \<union> g ` set xs"
  "emitted (fold (\<lambda>x. hideElement (g x)) xs w) = emitted w"
  "animations (fold (\<lambda>x. hideElement (g x)) xs w) = animations w"
  by (induction xs arbitrary: w; simp; blast?)+

subsection \<open>Frames of projection building and of collapse\<close>

lemma addProjections_frame [simp]:
  "nodes (fst (addProjections P gs k (w, ids))) = nodes w"
  "hierarchy (fst (addProjections P gs k (w, ids))) = hierarchy w"
  "placement (fst (addProjections P gs k (w, ids))) = placement w"
  "collapsedIds (fst (addProjections P gs k (w, ids))) = collapsedIds w"
  "hiddenElementsMap (fst (addProjections P gs k (w, ids))) = hiddenElementsMap w"
  "savedPositionsMap (fst (addProjections P gs k (w, ids))) = savedPositionsMap w"
  "projectionEdgesMap (fst (addProjections P gs k (w, ids))) = projectionEdgesMap w"
  "hiddenIds (fst (addProjections P gs k (w, ids))) = hiddenIds w"
  "emitted (fst (addProjections P gs k (w, ids))) = emitted w"
  "animations (fst (addProjections P gs k (w, ids))) = animations w"
  by (induction P gs k "(w, ids)" arbitrary: w ids rule: addProjections.induct;
      simp add: Let_def)+

lemma createProjections_frame [simp]:
  "hierarchy (createProjections w P ds) = hierarchy w"
  "placement (createProjections w P ds) = placement w"
  "collapsedIds (createProjections w P ds) = collapsedIds w"
  "hiddenElementsMap (createProjections w P ds) = hiddenElementsMap w"
  "savedPositionsMap (createProjections w P ds) = savedPositionsMap w"
  "emitted (createProjections w P ds) = emitted w"
  "animations (createProjections w P ds) = animations w"
  by (simp_all add: createProjections_def Let_def)

lemma createProjections_hiddenIds:
  "hiddenIds (createProjections w P ds)
     = hiddenIds w \<union> edge_id ` set (fst (snd (classifyEdges w (insert P (set (map node_id ds))) ds)))"
  by (simp add: createProjections_def Let_def)

lemma hideSubtree_frame [simp]:
  "hierarchy (hideSubtree w n) = hierarchy w"
  "wiring (hideSubtree w n) = wiring w"
  "placement (hideSubtree w n) = placement w"
  "collapsedIds (hideSubtree w n) = collapsedIds w"
  "projectionEdgesMap (hideSubtree w n) = projectionEdgesMap w"
  "emitted (hideSubtree w n) = emitted w"
  "animations (hideSubtree w n) = animations w"
  "hiddenElementsMap (hideSubtree w n) = (hiddenElementsMap w)(n \<mapsto> descendantIds w n)"
  by (simp_all add: hideSubtree_def Let_def descendantIds_def)

lemma collapse_success:
  assumes "isParent w n" "n \<notin> collapsedIds w"
  shows "collapse opts w n =
           (True, (createProjections (hideSubtree w n) n (descendants w n))
                    \<lparr>collapsedIds := insert n (collapsedIds w),
                     emitted := emitted w @ [CollapseEvent n]\<rparr>)"
  using assms by (simp add: collapse_def hideSubtree_def Let_def)

subsection \<open>Hidden status under the basic operations\<close>

lemma getNode_setDataHidden:
  "getNode (setDataHidden b j w) i
     = map_option (\<lambda>n. if node_id n = j then n\<lparr>node_hidden := b\<rparr> else n) (getNode w i)"
  unfolding getNode_def setDataHidden_def by (simp add: find_map_keeps)

lemma getEdge_setDataHidden:
  "getEdge (setDataHidden b j w) i
     = map_option (\<lambda>e. if edge_id e = j then e\<lparr>edge_hidden := b\<rparr> else e) (getEdge w i)"
  unfolding getEdge_def setDataHidden_def by (simp add: find_map_keeps)

lemma getNode_id: "getNode w i = Some n \<Longrightarrow> node_id n = i \<and> n \<in> set (nodes w)"
  by (auto simp: getNode_def dest: find_Some_mem)

lemma getEdge_id: "getEdge w i = Some e \<Longrightarrow> edge_id e = i \<and> e \<in> set (edges w)"
  by (auto simp: getEdge_def dest: find_Some_mem)

lemma dataHidden_setDataHidden:
  "dataHidden (setDataHidden b j w) i
     = (if i = j then hasElementWithId w i \<and> b else dataHidden w i)"
proof (cases "getNode w i")
  case None
  show ?thesis
  proof (cases "getEdge w i")
    case N: None
    with None show ?thesis
      by (auto simp: dataHidden_def getNode_setDataHidden getEdge_setDataHidden hasElementWithId_def)
  next
    case (Some e)
    with None getEdge_id[OF Some] show ?thesis
      by (auto simp: dataHidden_def getNode_setDataHidden getEdge_setDataHidden hasElementWithId_def)
  qed
next
  case (Some n)
  with getNode_id[OF Some] show ?thesis
    by (auto simp: dataHidden_def getNode_setDataHidden getEdge_setDataHidden hasElementWithId_def)
qed

lemma getNode_update [simp]:
  "getNode (w\<lparr>edges := x0\<rparr>) i = getNode w i"
  "getNode (w\<lparr>emitted := x1\<rparr>) i = getNode w i"
  "getNode (w\<lparr>animations := x2\<rparr>) i = getNode w i"
  "getNode (w\<lparr>collapsedIds := x3\<rparr>) i = getNode w i"
  "getNode (w\<lparr>hiddenElementsMap := x4\<rparr>) i = getNode w i"
  "getNode (w\<lparr>savedPositionsMap := x5\<rparr>) i = getNode w i"
  "getNode (w\<lparr>projectionEdgesMap := x6\<rparr>) i = getNode w i"
  "getNode (w\<lparr>hiddenIds := x7\<rparr>) i = getNode w i"
  by (simp_all add: getNode_def)

lemma getEdge_update [simp]:
  "getEdge (w\<lparr>nodes := x0\<rparr>) i = getEdge w i"
  "getEdge (w\<lparr>emitted := x1\<rparr>) i = getEdge w i"
  "getEdge (w\<lparr>animations := x2\<rparr>) i = getEdge w i"
  "getEdge (w\<lparr>collapsedIds := x3\<rparr>) i = getEdge w i"
  "getEdge (w\<lparr>hiddenElementsMap := x4\<rparr>) i = getEdge w i"
  "getEdge (w\<lparr>savedPositionsMap := x5\<rparr>) i = getEdge w i"
  "getEdge (w\<lparr>projectionEdgesMap := x6\<rparr>) i = getEdge w i"
  "getEdge (w\<lparr>hiddenIds := x7\<rparr>) i = getEdge w i"
  by (simp_all add: getEdge_def)

lemma dataHidden_update [simp]:
  "dataHidden (w\<lparr>emitted := x1\<rparr>) i = dataHidden w i"
  "dataHidden (w\<lparr>animations := x2\<rparr>) i = dataHidden w i"
  "dataHidden (w\<lparr>collapsedIds := x3\<rparr>) i = dataHidden w i"
  "dataHidden (w\<lparr>hiddenElementsMap := x4\<rparr>) i = dataHidden w i"
  "dataHidden (w\<lparr>savedPositionsMap := x5\<rparr>) i = dataHidden w i"
  "dataHidden (w\<lparr>projectionEdgesMap := x6\<rparr>) i = dataHidden w i"
  "dataHidden (w\<lparr>hiddenIds := x7\<rparr>) i = dataHidden w i"
  by (simp_all add: dataHidden_def cong: option.case_cong)

lemma isHiddenEle_hideElement [simp]:
  "isHiddenEle (hideElement j w) i = (i = j \<or> isHiddenEle w i)"
  by (auto simp: isHiddenEle_def hideElement_def dataHidden_setDataHidden)

lemma isHiddenEle_showElement [simp]:
  "isHiddenEle (showElement j w) i = (i \<noteq> j \<and> isHiddenEle w i)"
  by (auto simp: isHiddenEle_def showElement_def dataHidden_setDataHidden)

lemma getNode_setPosition:
  "getNode (setPosition j p w) i
     = map_option (\<lambda>n. if node_id n = j then n\<lparr>node_position := p\<rparr> else n) (getNode w i)"
  unfolding getNode_def setPosition_def by (simp add: find_map_keeps)

lemma isHiddenEle_setPosition [simp]:
  "isHiddenEle (setPosition j p w) i = isHiddenEle w i"
  by (cases "getNode w i")
     (simp_all add: isHiddenEle_def dataHidden_def getNode_setPosition getEdge_def)

lemma isHiddenEle_cyRemoveEdge:
  "getNode w i \<noteq> None \<Longrightarrow> isHiddenEle (cyRemoveEdge j w) i = isHiddenEle w i"
  by (auto simp: isHiddenEle_def dataHidden_def getNode_def)

lemma isHiddenEle_other_update [simp]:
  "isHiddenEle (w\<lparr>emitted := x1\<rparr>) i = isHiddenEle w i"
  "isHiddenEle (w\<lparr>animations := x2\<rparr>) i = isHiddenEle w i"
  "isHiddenEle (w\<lparr>collapsedIds := x3\<rparr>) i = isHiddenEle w i"
  "isHiddenEle (w\<lparr>hiddenElementsMap := x4\<rparr>) i = isHiddenEle w i"
  "isHiddenEle (w\<lparr>savedPositionsMap := x5\<rparr>) i = isHiddenEle w i"
  "isHiddenEle (w\<lparr>projectionEdgesMap := x6\<rparr>) i = isHiddenEle w i"
  by (simp_all add: isHiddenEle_def)

subsection \<open>Showing the descendants on expand\<close>

lemma showEdgeIfVisible_frame [simp]:
  "hierarchy (showEdgeIfVisible e w) = hierarchy w"
  "wiring (showEdgeIfVisible e w) = wiring w"
  "placement (showEdgeIfVisible e w) = placement w"
  "collapsedIds (showEdgeIfVisible e w) = collapsedIds w"
  "hiddenElementsMap (showEdgeIfVisible e w) = hiddenElementsMap w"
  "savedPositionsMap (showEdgeIfVisible e w) = savedPositionsMap w"
  "projectionEdgesMap (showEdgeIfVisible e w) = projectionEdgesMap w"
  "emitted (showEdgeIfVisible e w) = emitted w"
  "animations (showEdgeIfVisible e w) = animations w"
  by (simp_all add: showEdgeIfVisible_def)

lemma fold_showEdge_frame [simp]:
  "hierarchy (fold showEdgeIfVisible es w) = hierarchy w"
  "wiring (fold showEdgeIfVisible es w) = wiring w"
  "placement (fold showEdgeIfVisible es w) = placement w"
  "collapsedIds (fold showEdgeIfVisible es w) = collapsedIds w"
  "hiddenElementsMap (fold showEdgeIfVisible es w) = hiddenElementsMap w"
  "savedPositionsMap (fold showEdgeIfVisible es w) = savedPositionsMap w"
  "projectionEdgesMap (fold showEdgeIfVisible es w) = projectionEdgesMap w"
  "emitted (fold showEdgeIfVisible es w) = emitted w"
  "animations (fold showEdgeIfVisible es w) = animations w"
  by (induction es arbitrary: w; simp)+

lemma showDescendant_frame [simp]:
  "hierarchy (showDescendant n i w) = hierarchy w"
  "wiring (showDescendant n i w) = wiring w"
  "placement (showDescendant n i w) = placement w"
  "collapsedIds (showDescendant n i w) = collapsedIds w"
  "hiddenElementsMap (showDescendant n i w) = hiddenElementsMap w"
  "savedPositionsMap (showDescendant n i w) = savedPositionsMap w"
  "projectionEdgesMap (showDescendant n i w) = projectionEdgesMap w"
  "emitted (showDescendant n i w) = emitted w"
  "animations (showDescendant n i w) = animations w"
  by (simp_all add: showDescendant_def Let_def split: option.splits)

lemma fold_showDescendant_frame [simp]:
  "hierarchy (fold (showDescendant n) ids w) = hierarchy w"
  "wiring (fold (showDescendant n) ids w) = wiring w"
  "placement (fold (showDescendant n) ids w) = placement w"
  "collapsedIds (fold (showDescendant n) ids w) = collapsedIds w"
  "hiddenElementsMap (fold (showDescendant n) ids w) = hiddenElementsMap w"
  "savedPositionsMap (fold (showDescendant n) ids w) = savedPositionsMap w"
  "projectionEdgesMap (fold (showDescendant n) ids w) = projectionEdgesMap w"
  "emitted (fold (showDescendant n) ids w) = emitted w"
  "animations (fold (showDescendant n) ids w) = animations w"
  by (induction ids arbitrary: w; simp)+







subsection \<open>Removing projections\<close>

lemma fold_cyRemoveEdge_frame [simp]:
  "nodes (fold cyRemoveEdge ids w) = nodes w"
  "hierarchy (fold cyRemoveEdge ids w) = hierarchy w"
  "placement (fold cyRemoveEdge ids w) = placement w"
  "collapsedIds (fold cyRemoveEdge ids w) = collapsedIds w"
  "hiddenElementsMap (fold cyRemoveEdge ids w) = hiddenElementsMap w"
  "savedPositionsMap (fold cyRemoveEdge ids w) = savedPositionsMap w"
  "hiddenIds (fold cyRemoveEdge ids w) = hiddenIds w"
  "emitted (fold cyRemoveEdge ids w) = emitted w"
  "animations (fold cyRemoveEdge ids w) = animations w"
  "projectionEdgesMap (fold cyRemoveEdge ids w) = projectionEdgesMap w"
  by (induction ids arbitrary: w; simp)+

lemma removeProjections_frame [simp]:
  "nodes (removeProjections w n) = nodes w"
  "hierarchy (removeProjections w n) = hierarchy w"
  "placement (removeProjections w n) = placement w"
  "collapsedIds (removeProjections w n) = collapsedIds w"
  "hiddenElementsMap (removeProjections w n) = hiddenElementsMap w"
  "savedPositionsMap (removeProjections w n) = savedPositionsMap w"
  "hiddenIds (removeProjections w n) = hiddenIds w"
  "emitted (removeProjections w n) = emitted w"
  "animations (removeProjections w n) = animations w"
  by (simp_all add: removeProjections_def Let_def split: option.splits)



subsection \<open>Positions\<close>

lemma find_placed:
  "(case find (\<lambda>n. node_id n = i) ns of Some n \<Rightarrow> node_position n | None \<Rightarrow> d)
     = (case map_of (map placed ns) i of Some p \<Rightarrow> p | None \<Rightarrow> d)"
  by (induction ns) (auto simp: placed_def)

lemma positionOf_placement:
  "positionOf w i = (case map_of (placement w) i of Some p \<Rightarrow> p | None \<Rightarrow> (0, 0))"
  by (simp add: positionOf_def getNode_def placement_def find_placed)

lemma fst_views [simp]:
  "map fst (hierarchy w) = map node_id (nodes w)"
  "map fst (placement w) = map node_id (nodes w)"
  "map fst (wiring w) = map edge_id (edges w)"
  by (simp_all add: hierarchy_def placement_def wiring_def shape_def placed_def wire_def)

lemma wellFormed_distinct:
  assumes "wellFormed w"
  shows "distinct (map node_id (nodes w))" "distinct (map edge_id (edges w))"
    and "set (map node_id (nodes w)) \<inter> set (map edge_id (edges w)) = {}"
  using assms by (simp_all add: wellFormed_def)

lemma positionOf_node:
  assumes "distinct (map node_id (nodes w))" "n \<in> set (nodes w)"
  shows "positionOf w (node_id n) = node_position n"
proof -
  have "(node_id n, node_position n) \<in> set (placement w)"
    using assms(2) by (auto simp: placement_def placed_def)
  moreover have "distinct (map fst (placement w))"
    using assms(1) by simp
  ultimately have "map_of (placement w) (node_id n) = Some (node_position n)"
    by (rule map_of_is_SomeI[rotated])
  then show ?thesis
    by (simp add: positionOf_placement)
qed


lemma fold_upd_dom:
  "dom (fold (\<lambda>c m. m(f c \<mapsto> g c)) xs m0) = dom m0 \<union> f ` set xs"
  by (induction xs arbitrary: m0) auto

lemma savedPositionsMap_saveLocalPositions:
  "savedPositionsMap (saveLocalPositions w n ds) =
     (savedPositionsMap w)(n \<mapsto> fold (\<lambda>child m. m(node_id child \<mapsto>
         (fst (node_position child) - fst (positionOf w n),
          snd (node_position child) - snd (positionOf w n)))) ds Map.empty)"
  by (simp add: saveLocalPositions_def Let_def)

lemma savedPositionsMap_hideSubtree:
  "savedPositionsMap (hideSubtree w n) =
     (savedPositionsMap w)(n \<mapsto> fold (\<lambda>child m. m(node_id child \<mapsto>
         (fst (node_position child) - fst (positionOf w n),
          snd (node_position child) - snd (positionOf w n)))) (descendants w n) Map.empty)"
  by (simp add: hideSubtree_def Let_def savedPositionsMap_saveLocalPositions)

lemma restoreChild_frame [simp]:
  "hierarchy (restoreChild opts pp pm c w) = hierarchy w"
  "wiring (restoreChild opts pp pm c w) = wiring w"
  "collapsedIds (restoreChild opts pp pm c w) = collapsedIds w"
  "hiddenElementsMap (restoreChild opts pp pm c w) = hiddenElementsMap w"
  "savedPositionsMap (restoreChild opts pp pm c w) = savedPositionsMap w"
  "projectionEdgesMap (restoreChild opts pp pm c w) = projectionEdgesMap w"
  "hiddenIds (restoreChild opts pp pm c w) = hiddenIds w"
  "emitted (restoreChild opts pp pm c w) = emitted w"
  "isHiddenEle (restoreChild opts pp pm c w) i = isHiddenEle w i"
  by (simp_all add: restoreChild_def Let_def split: option.splits)

lemma fold_restoreChild_frame [simp]:
  "hierarchy (fold (restoreChild opts pp pm) cs w) = hierarchy w"
  "wiring (fold (restoreChild opts pp pm) cs w) = wiring w"
  "collapsedIds (fold (restoreChild opts pp pm) cs w) = collapsedIds w"
  "hiddenElementsMap (fold (restoreChild opts pp pm) cs w) = hiddenElementsMap w"
  "savedPositionsMap (fold (restoreChild opts pp pm) cs w) = savedPositionsMap w"
  "projectionEdgesMap (fold (restoreChild opts pp pm) cs w) = projectionEdgesMap w"
  "hiddenIds (fold (restoreChild opts pp pm) cs w) = hiddenIds w"
  "emitted (fold (restoreChild opts pp pm) cs w) = emitted w"
  "isHiddenEle (fold (restoreChild opts pp pm) cs w) i = isHiddenEle w i"
  by (induction cs arbitrary: w; simp)+

lemma restoreLocalPositions_frame [simp]:
  "hierarchy (restoreLocalPositions opts w n) = hierarchy w"
  "wiring (restoreLocalPositions opts w n) = wiring w"
  "collapsedIds (restoreLocalPositions opts w n) = collapsedIds w"
  "hiddenElementsMap (restoreLocalPositions opts w n) = hiddenElementsMap w"
  "projectionEdgesMap (restoreLocalPositions opts w n) = projectionEdgesMap w"
  "hiddenIds (restoreLocalPositions opts w n) = hiddenIds w"
  "emitted (restoreLocalPositions opts w n) = emitted w"
  "isHiddenEle (restoreLocalPositions opts w n) i = isHiddenEle w i"
  by (simp_all add: restoreLocalPositions_def Let_def split: option.splits)

subsection \<open>Parents of descendants\<close>

lemma childIds_mem: "c \<in> set (childIds h p) \<longleftrightarrow> (c, Some p) \<in> set h"
  by (force simp: childIds_def)

lemma descIds_Suc_mem:
  "d \<in> set (descIds (Suc k) h p)
     \<longleftrightarrow> (\<exists>c \<in> set (childIds h p). d = c \<or> d \<in> set (descIds k h c))"
  by auto




subsection \<open>Round trip\<close>

lemma expand_success:
  assumes "n \<in> collapsedIds w"
  shows "expand opts w n =
     (True, (restoreLocalPositions opts
               (removeProjections
                  (fold (showDescendant n)
                     (case hiddenElementsMap w n of None \<Rightarrow> [] | Some ids \<Rightarrow> ids) w) n) n)
            \<lparr>collapsedIds := collapsedIds w - {n},
             hiddenElementsMap := (hiddenElementsMap w)(n := None),
             emitted := emitted w @ [ExpandEvent n]\<rparr>)"
  using assms by (simp add: expand_def Let_def)



text \<open>Moving the nodes, and what restoring the children writes.\<close>

lemma setPositions_frame [simp]:
  "hierarchy (setPositions f w) = hierarchy w"
  "wiring (setPositions f w) = wiring w"
  "edges (setPositions f w) = edges w"
  "collapsedIds (setPositions f w) = collapsedIds w"
  "hiddenElementsMap (setPositions f w) = hiddenElementsMap w"
  "savedPositionsMap (setPositions f w) = savedPositionsMap w"
  "projectionEdgesMap (setPositions f w) = projectionEdgesMap w"
  "hiddenIds (setPositions f w) = hiddenIds w"
  "emitted (setPositions f w) = emitted w"
  "animations (setPositions f w) = animations w"
  by (simp_all add: setPositions_def hierarchy_def wiring_def shape_def)

lemma getNode_setPositions:
  "getNode (setPositions f w) i
     = map_option (\<lambda>n. n\<lparr>node_position := f (node_id n)\<rparr>) (getNode w i)"
  unfolding getNode_def setPositions_def by (simp add: find_map_keeps)

lemma isHiddenEle_setPositions [simp]:
  "isHiddenEle (setPositions f w) i = isHiddenEle w i"
  by (cases "getNode w i")
     (simp_all add: isHiddenEle_def dataHidden_def getNode_setPositions getEdge_def)



lemma positionOf_update [simp]:
  "positionOf (w\<lparr>animations := x\<rparr>) i = positionOf w i"
  "positionOf (w\<lparr>savedPositionsMap := y\<rparr>) i = positionOf w i"
  "positionOf (w\<lparr>collapsedIds := z\<rparr>) i = positionOf w i"
  "positionOf (w\<lparr>hiddenElementsMap := u\<rparr>) i = positionOf w i"
  "positionOf (w\<lparr>emitted := v\<rparr>) i = positionOf w i"
  by (simp_all add: positionOf_def)





subsection \<open>Edges of a set of nodes\<close>

lemma spawnUnique_subset: "set (spawnUnique es) \<subseteq> set es"
  by (induction es rule: spawnUnique.induct) auto

lemma spawnUnique_ids: "edge_id ` set (spawnUnique es) = edge_id ` set es"
proof (induction es rule: spawnUnique.induct)
  case 1
  show ?case by simp
next
  case (2 e es)
  have "edge_id ` set (filter (\<lambda>e'. edge_id e' \<noteq> edge_id e) es) = edge_id ` set es - {edge_id e}"
    by auto
  with 2 show ?case by auto
qed

lemma connectedEdges_set:
  "set (connectedEdges w i) = {e \<in> set (edges w). edge_source e = i \<or> edge_target e = i}"
  by (auto simp: connectedEdges_def)

lemma connectedEdges_concat_set:
  "set (concat (map (\<lambda>d. connectedEdges w (node_id d)) ds))
     = {e \<in> set (edges w). touches (node_id ` set ds) e}"
  by (auto simp: connectedEdges_set touches_def)

lemma connectedEdgesOf_ids:
  "edge_id ` set (connectedEdgesOf w ds)
     = edge_id ` {e \<in> set (edges w). touches (node_id ` set ds) e}"
  unfolding connectedEdgesOf_def spawnUnique_ids connectedEdges_concat_set ..

text \<open>What touches, and on which side, is decided by the wiring.\<close>

lemma touching_ids_wiring:
  "edge_id ` {e \<in> set (edges w). touches S e}
     = fst ` {x \<in> set (wiring w). fst (snd x) \<in> S \<or> snd (snd x) \<in> S}"
  by (force simp: wiring_def wire_def touches_def)

lemma touching_ids_cong:
  "wiring w' = wiring w \<Longrightarrow>
   edge_id ` {e \<in> set (edges w'). touches S e} = edge_id ` {e \<in> set (edges w). touches S e}"
  by (simp add: touching_ids_wiring)

lemma edge_by_wiring:
  assumes "wiring w' = wiring w" "e \<in> set (edges w)"
  shows "\<exists>e' \<in> set (edges w'). wire e' = wire e"
proof -
  have "wire e \<in> set (wiring w')"
    using assms by (simp add: wiring_def)
  then show ?thesis
    by (auto simp: wiring_def)
qed

lemma wire_preds:
  assumes "wire e' = wire e"
  shows "touches S e' = touches S e" "boundary S e' = boundary S e"
    "internal S e' = internal S e" "groupKey S e' = groupKey S e" "edge_id e' = edge_id e"
  using assms by (simp_all add: wire_def touches_def boundary_def internal_def groupKey_def)

subsection \<open>Classification of the edges\<close>

lemma fold_fold_concat: "fold (\<lambda>x. fold f (g x)) xs a = fold f (concat (map g xs)) a"
  by (induction xs arbitrary: a) simp_all

lemma classifyEdges_fold:
  "classifyEdges w S ds
     = fold (classifyEdge S) (concat (map (\<lambda>n. connectedEdges w (node_id n)) ds)) ({}, [], [])"
  unfolding classifyEdges_def by (rule fold_fold_concat)

lemma classifyEdge_fold_sets:
  assumes "inj_on edge_id (set es)"
  shows "fst (fold (classifyEdge S) es (seen, ints, exts)) = seen \<union> edge_id ` set es
     \<and> set (fst (snd (fold (classifyEdge S) es (seen, ints, exts))))
         = set ints \<union> {e \<in> set es. edge_id e \<notin> seen \<and> internal S e}
     \<and> set (snd (snd (fold (classifyEdge S) es (seen, ints, exts))))
         = set exts \<union> {e \<in> set es. edge_id e \<notin> seen \<and> boundary S e}"
  using assms
proof (induction es arbitrary: seen ints exts)
  case Nil
  show ?case by simp
next
  case (Cons x xs)
  have inj: "inj_on edge_id (set xs)"
    using Cons.prems by (simp add: inj_on_def)
  have same: "e = x" if "e \<in> set xs" "edge_id e = edge_id x" for e
    using Cons.prems that by (auto simp: inj_on_def)
  show ?case
  proof (cases "edge_id x \<in> seen")
    case True
    then have "classifyEdge S x (seen, ints, exts) = (seen, ints, exts)"
      by (simp add: classifyEdge_def)
    with Cons.IH[OF inj, of seen ints exts] True show ?thesis
      by auto
  next
    case False
    show ?thesis
    proof (cases "internal S x")
      case True
      then have "classifyEdge S x (seen, ints, exts) = (insert (edge_id x) seen, ints @ [x], exts)"
        using False by (simp add: classifyEdge_def internal_def Let_def)
      moreover have "\<not> boundary S x"
        using True by (auto simp: internal_def boundary_def)
      ultimately show ?thesis
        using Cons.IH[OF inj, of "insert (edge_id x) seen" "ints @ [x]" exts] False True same
        by auto
    next
      case notint: False
      show ?thesis
      proof (cases "boundary S x")
        case True
        then have "classifyEdge S x (seen, ints, exts)
                     = (insert (edge_id x) seen, ints, exts @ [x])"
          using False notint by (simp add: classifyEdge_def internal_def boundary_def Let_def)
        then show ?thesis
          using Cons.IH[OF inj, of "insert (edge_id x) seen" ints "exts @ [x]"] False True notint same
          by auto
      next
        case nb: False
        then have "classifyEdge S x (seen, ints, exts) = (insert (edge_id x) seen, ints, exts)"
          using False notint by (simp add: classifyEdge_def internal_def boundary_def Let_def)
        then show ?thesis
          using Cons.IH[OF inj, of "insert (edge_id x) seen" ints exts] False nb notint same
          by auto
      qed
    qed
  qed
qed

lemma classifyEdges_sets:
  assumes "distinct (map edge_id (edges w))"
  shows "set (fst (snd (classifyEdges w S ds)))
           = {e \<in> set (edges w). touches (node_id ` set ds) e \<and> internal S e}"
    and "set (snd (snd (classifyEdges w S ds)))
           = {e \<in> set (edges w). touches (node_id ` set ds) e \<and> boundary S e}"
proof -
  let ?es = "concat (map (\<lambda>n. connectedEdges w (node_id n)) ds)"
  have "set ?es \<subseteq> set (edges w)"
    by (auto simp: connectedEdges_set)
  moreover have "inj_on edge_id (set (edges w))"
    using assms by (simp add: distinct_map)
  ultimately have "inj_on edge_id (set ?es)"
    by (rule inj_on_subset[rotated])
  from classifyEdge_fold_sets[OF this, of S "{}" "[]" "[]", folded classifyEdges_fold,
         unfolded connectedEdges_concat_set]
  show "set (fst (snd (classifyEdges w S ds)))
           = {e \<in> set (edges w). touches (node_id ` set ds) e \<and> internal S e}"
    and "set (snd (snd (classifyEdges w S ds)))
           = {e \<in> set (edges w). touches (node_id ` set ds) e \<and> boundary S e}"
    by auto
qed

lemma classifyEdge_internal_subset:
  "set (fst (snd (classifyEdge S x (seen, ints, exts)))) \<subseteq> insert x (set ints)"
  by (auto simp: classifyEdge_def Let_def)

lemma classifyEdge_fold_internal_subset:
  "set (fst (snd (fold (classifyEdge S) es acc))) \<subseteq> set (fst (snd acc)) \<union> set es"
proof (induction es arbitrary: acc)
  case Nil
  show ?case by simp
next
  case (Cons x xs)
  obtain seen ints exts where acc: "acc = (seen, ints, exts)"
    by (cases acc) auto
  have "set (fst (snd (fold (classifyEdge S) xs (classifyEdge S x acc))))
          \<subseteq> set (fst (snd (classifyEdge S x acc))) \<union> set xs"
    by (rule Cons.IH)
  also have "\<dots> \<subseteq> insert x (set ints) \<union> set xs"
    using classifyEdge_internal_subset[of S x seen ints exts] acc by blast
  finally show ?case
    using acc by auto
qed

lemma classifyEdges_internal_touching:
  "set (fst (snd (classifyEdges w S ds)))
     \<subseteq> {e \<in> set (edges w). touches (node_id ` set ds) e}"
  using classifyEdge_fold_internal_subset[of S
          "concat (map (\<lambda>n. connectedEdges w (node_id n)) ds)" "({}, [], [])"]
  unfolding classifyEdges_fold connectedEdges_concat_set by simp

subsection \<open>What a collapse hides\<close>

lemma isHiddenEle_fold_hide:
  "isHiddenEle (fold (\<lambda>x. hideElement (g x)) xs w) i = (i \<in> g ` set xs \<or> isHiddenEle w i)"
  by (induction xs arbitrary: w) auto

lemma find_append2:
  "find P (xs @ ys) = (case find P xs of None \<Rightarrow> find P ys | Some x \<Rightarrow> Some x)"
  by (induction xs) auto

lemma isHiddenEle_add_edge:
  assumes "\<not> hasElementWithId w j"
  shows "isHiddenEle (w\<lparr>edges := edges w @ [\<lparr>edge_id = j, edge_source = s, edge_target = t,
                   edge_isProjection = True, edge_hidden = False\<rparr>]\<rparr>) i = isHiddenEle w i"
proof (cases "getNode w i")
  case None
  show ?thesis
  proof (cases "getEdge w i")
    case N: None
    with None show ?thesis
      by (simp add: isHiddenEle_def dataHidden_def getEdge_def find_append2)
  next
    case (Some e)
    with None show ?thesis
      by (simp add: isHiddenEle_def dataHidden_def getEdge_def find_append2)
  qed
next
  case (Some n)
  then show ?thesis
    by (simp add: isHiddenEle_def dataHidden_def)
qed

lemma isHiddenEle_cyAddEdge [simp]:
  "isHiddenEle (cyAddEdge w j s t) i = isHiddenEle w i"
proof (cases s)
  case None
  then show ?thesis by (simp add: cyAddEdge_def)
next
  case S: (Some s')
  show ?thesis
  proof (cases t)
    case None
    with S show ?thesis by (simp add: cyAddEdge_def)
  next
    case (Some t')
    with S show ?thesis
      by (simp add: cyAddEdge_def isHiddenEle_add_edge)
  qed
qed

lemma isHiddenEle_addProjections [simp]:
  "isHiddenEle (fst (addProjections P gs k (w, ids))) i = isHiddenEle w i"
  by (induction P gs k "(w, ids)" arbitrary: w ids rule: addProjections.induct)
     (simp_all add: Let_def)

lemma isHiddenEle_createProjections:
  "isHiddenEle (createProjections w P ds) i
     = (i \<in> edge_id ` set (fst (snd (classifyEdges w (insert P (set (map node_id ds))) ds)))
        \<or> isHiddenEle w i)"
  by (simp add: createProjections_def Let_def isHiddenEle_fold_hide)

lemma hideSubtree_hidden:
  "isHiddenEle (hideSubtree w n) i
     = (i \<in> set (descendantIds w n)
        \<or> i \<in> edge_id ` {e \<in> set (edges w). touches (set (descendantIds w n)) e}
        \<or> isHiddenEle w i)"
  "hiddenIds (hideSubtree w n)
     = hiddenIds w \<union> set (descendantIds w n)
       \<union> edge_id ` {e \<in> set (edges w). touches (set (descendantIds w n)) e}"
proof -
  define D where "D = descendants w n"
  define w2 where "w2 = fold (\<lambda>d. hideElement (node_id d)) D (saveLocalPositions w n D)"
  have "wiring w2 = wiring w"
    by (simp add: w2_def)
  then have ids: "edge_id ` set (connectedEdgesOf w2 D)
                    = edge_id ` {e \<in> set (edges w). touches (node_id ` set D) e}"
    unfolding connectedEdgesOf_ids by (rule touching_ids_cong)
  have sub: "hideSubtree w n
               = (fold (\<lambda>e. hideElement (edge_id e)) (connectedEdgesOf w2 D) w2)
                   \<lparr>hiddenElementsMap := (hiddenElementsMap
                        (fold (\<lambda>e. hideElement (edge_id e)) (connectedEdgesOf w2 D) w2))
                        (n \<mapsto> map node_id D)\<rparr>"
    by (simp add: hideSubtree_def Let_def D_def w2_def)
  have base: "isHiddenEle (saveLocalPositions w n D) i = isHiddenEle w i"
    by (simp add: saveLocalPositions_def Let_def)
  have h2: "isHiddenEle w2 i = (i \<in> node_id ` set D \<or> isHiddenEle w i)"
    by (simp add: w2_def isHiddenEle_fold_hide base)
  have s2: "hiddenIds w2 = hiddenIds w \<union> node_id ` set D"
    by (simp add: w2_def)
  have "isHiddenEle (hideSubtree w n) i
     = (i \<in> node_id ` set D
        \<or> i \<in> edge_id ` {e \<in> set (edges w). touches (node_id ` set D) e}
        \<or> isHiddenEle w i)"
    unfolding sub by (auto simp: isHiddenEle_fold_hide ids h2)
  then show "isHiddenEle (hideSubtree w n) i
     = (i \<in> set (descendantIds w n)
        \<or> i \<in> edge_id ` {e \<in> set (edges w). touches (set (descendantIds w n)) e}
        \<or> isHiddenEle w i)"
    by (simp add: descendantIds_def D_def)
  have "hiddenIds (hideSubtree w n)
     = hiddenIds w \<union> node_id ` set D
       \<union> edge_id ` {e \<in> set (edges w). touches (node_id ` set D) e}"
    unfolding sub by (simp add: ids s2)
  then show "hiddenIds (hideSubtree w n)
     = hiddenIds w \<union> set (descendantIds w n)
       \<union> edge_id ` {e \<in> set (edges w). touches (set (descendantIds w n)) e}"
    by (simp add: descendantIds_def D_def)
qed

lemma internal_ids_touching:
  "edge_id ` set (fst (snd (classifyEdges (hideSubtree w n) S (descendants w n))))
     \<subseteq> edge_id ` {e \<in> set (edges w). touches (set (descendantIds w n)) e}"
proof -
  have "edge_id ` set (fst (snd (classifyEdges (hideSubtree w n) S (descendants w n))))
          \<subseteq> edge_id ` {e \<in> set (edges (hideSubtree w n)).
                          touches (node_id ` set (descendants w n)) e}"
    by (rule image_mono) (rule classifyEdges_internal_touching)
  also have "\<dots> = edge_id ` {e \<in> set (edges w). touches (node_id ` set (descendants w n)) e}"
    by (rule touching_ids_cong) simp
  finally show ?thesis
    by (simp add: descendantIds_def)
qed

lemma collapse_hidden:
  assumes "isParent w n" "n \<notin> collapsedIds w"
  shows "isHiddenEle (snd (collapse opts w n)) i
     = (i \<in> set (descendantIds w n)
        \<or> i \<in> edge_id ` {e \<in> set (edges w). touches (set (descendantIds w n)) e}
        \<or> isHiddenEle w i)"
    and "hiddenIds (snd (collapse opts w n))
     = hiddenIds w \<union> set (descendantIds w n)
       \<union> edge_id ` {e \<in> set (edges w). touches (set (descendantIds w n)) e}"
  using internal_ids_touching[of w n "insert n (set (map node_id (descendants w n)))"]
  by (auto simp: collapse_success[OF assms] isHiddenEle_createProjections
        createProjections_hiddenIds hideSubtree_hidden)

subsection \<open>Groups\<close>

lemma groupsPush_keeps:
  "(k, es) \<in> set gs \<Longrightarrow> \<exists>es'. (k, es') \<in> set (groupsPush key e gs) \<and> set es \<subseteq> set es'"
  by (induction key e gs rule: groupsPush.induct) auto

lemma groupsPush_adds:
  "\<exists>es. (key, es) \<in> set (groupsPush key e gs) \<and> e \<in> set es"
  by (induction key e gs rule: groupsPush.induct) auto

lemma groupsPush_content:
  "(k, es) \<in> set (groupsPush key e gs) \<Longrightarrow> x \<in> set es
     \<Longrightarrow> x = e \<or> (\<exists>es'. (k, es') \<in> set gs \<and> x \<in> set es')"
  by (induction key e gs rule: groupsPush.induct) (auto split: if_splits)

lemma groupEdge_boundary:
  "boundary S e \<Longrightarrow> groupEdge S e gs = groupsPush (groupKey S e) e gs"
  by (auto simp: groupEdge_def boundary_def groupKey_def Let_def)

lemma groupEdge_keeps:
  assumes "(k, es) \<in> set gs" "x \<in> set es"
  shows "\<exists>es'. (k, es') \<in> set (groupEdge S e gs) \<and> x \<in> set es'"
proof (cases "boundary S e")
  case True
  with groupsPush_keeps[OF assms(1), of "groupKey S e" e] assms(2) show ?thesis
    by (auto simp: groupEdge_boundary)
next
  case False
  then have "groupEdge S e gs = gs"
    by (auto simp: groupEdge_def boundary_def Let_def)
  with assms show ?thesis by auto
qed

lemma fold_groupEdge_keeps:
  assumes "(k, es) \<in> set gs" "x \<in> set es"
  shows "\<exists>es'. (k, es') \<in> set (fold (groupEdge S) xs gs) \<and> x \<in> set es'"
  using assms
proof (induction xs arbitrary: gs es)
  case Nil
  then show ?case by auto
next
  case (Cons y ys)
  from groupEdge_keeps[OF Cons.prems, of S y] obtain es' where
    "(k, es') \<in> set (groupEdge S y gs)" "x \<in> set es'"
    by blast
  from Cons.IH[OF this] show ?case by simp
qed

lemma fold_groupEdge_member:
  assumes "e \<in> set xs" "boundary S e"
  shows "\<exists>es. (groupKey S e, es) \<in> set (fold (groupEdge S) xs gs) \<and> e \<in> set es"
  using assms
proof (induction xs arbitrary: gs)
  case Nil
  then show ?case by simp
next
  case (Cons y ys)
  show ?case
  proof (cases "e = y")
    case True
    from groupsPush_adds[of "groupKey S e" e gs] obtain es where
      "(groupKey S e, es) \<in> set (groupEdge S e gs)" "e \<in> set es"
      using Cons.prems(2) by (auto simp: groupEdge_boundary)
    from fold_groupEdge_keeps[OF this, of S ys] True show ?thesis
      by simp
  next
    case False
    with Cons.prems have "e \<in> set ys" by simp
    from Cons.IH[OF this Cons.prems(2)] show ?thesis by simp
  qed
qed

lemma groupEdge_content:
  assumes "(k, es) \<in> set (groupEdge S e gs)" "x \<in> set es"
  shows "x = e \<or> (\<exists>es'. (k, es') \<in> set gs \<and> x \<in> set es')"
proof (cases "boundary S e")
  case True
  with assms groupsPush_content[of k es "groupKey S e" e gs x] show ?thesis
    by (simp add: groupEdge_boundary)
next
  case False
  then have "groupEdge S e gs = gs"
    by (auto simp: groupEdge_def boundary_def Let_def)
  with assms show ?thesis by auto
qed

lemma fold_groupEdge_content:
  assumes "(k, es) \<in> set (fold (groupEdge S) xs gs)" "x \<in> set es"
  shows "x \<in> set xs \<or> (\<exists>es'. (k, es') \<in> set gs \<and> x \<in> set es')"
  using assms
proof (induction xs arbitrary: gs)
  case Nil
  then show ?case by auto
next
  case (Cons y ys)
  from Cons.IH[of "groupEdge S y gs"] Cons.prems
  have "x \<in> set ys \<or> (\<exists>es'. (k, es') \<in> set (groupEdge S y gs) \<and> x \<in> set es')"
    by simp
  then show ?case
    using groupEdge_content[of k _ S y gs x] by auto
qed

lemma groupEdges_content:
  "(k, es) \<in> set (groupEdges S xs) \<Longrightarrow> x \<in> set es \<Longrightarrow> x \<in> set xs"
  unfolding groupEdges_def using fold_groupEdge_content[of k es S xs "[]" x] by simp

lemma groupEdges_member:
  "e \<in> set xs \<Longrightarrow> boundary S e
     \<Longrightarrow> \<exists>es. (groupKey S e, es) \<in> set (groupEdges S xs) \<and> e \<in> set es"
  unfolding groupEdges_def by (rule fold_groupEdge_member)

lemma addProjections_length:
  "length (snd (addProjections P gs k (w, ids))) = length ids + length gs"
  by (induction gs arbitrary: k w ids) (auto simp: Let_def)

subsection \<open>The record of a collapse\<close>

lemma projectionGroups_alt:
  "projectionGroups w n
     = groupEdges (insert n (set (descendantIds w n)))
         (snd (snd (classifyEdges (hideSubtree w n) (insert n (set (descendantIds w n)))
                      (descendants w n))))"
  by (simp add: projectionGroups_def Let_def descendantIds_def)

lemma collapse_record:
  assumes "isParent w n" "n \<notin> collapsedIds w"
  shows "\<exists>r. projectionEdgesMap (snd (collapse opts w n)) n = Some r
           \<and> originalIds r
               = map edge_id (snd (snd (classifyEdges (hideSubtree w n)
                                          (insert n (set (descendantIds w n))) (descendants w n))))
           \<and> length (projIds r) = length (projectionGroups w n)"
  by (simp add: collapse_success[OF assms] createProjections_def Let_def projectionGroups_alt
        descendantIds_def addProjections_length)

lemma wellFormed_node_vs_edge:
  assumes "wellFormed w" "e \<in> set (edges w)"
  shows "edge_id e \<notin> set (map node_id (nodes w))"
  using wellFormed_distinct(3)[OF assms(1)] assms(2) by auto

lemma descendantIds_subset: "set (descendantIds w n) \<subseteq> set (map node_id (nodes w))"
  using descendants_subset_nodes[of "length (nodes w)" "nodes w" n]
  by (auto simp: descendantIds_def descendants_def)

lemma wellFormed_not_own_descendant:
  assumes "wellFormed w" "isParent w n"
  shows "n \<notin> set (descendantIds w n)"
proof -
  from assms(2) obtain nd where nd: "getNode w n = Some nd"
    by (auto simp: isParent_def)
  then have "nd \<in> set (nodes w)" "node_id nd = n"
    using getNode_id by blast+
  with assms(1) show ?thesis
    by (auto simp: wellFormed_def descendantIds_def)
qed

lemma distinct_edge_same:
  assumes "distinct (map edge_id (edges w))" "a \<in> set (edges w)" "b \<in> set (edges w)"
    and "edge_id a = edge_id b"
  shows "a = b"
  using assms by (meson distinct_map inj_onD)

subsection \<open>Chains of parents\<close>

lemma parentOf_iff:
  assumes "distinct (map fst h)"
  shows "parentOf h c = Some p \<longleftrightarrow> (c, Some p) \<in> set h"
proof
  assume "parentOf h c = Some p"
  then have "map_of h c = Some (Some p)"
    by (auto simp: parentOf_def split: option.splits)
  then show "(c, Some p) \<in> set h"
    by (rule map_of_SomeD)
next
  assume "(c, Some p) \<in> set h"
  with assms have "map_of h c = Some (Some p)"
    by (rule map_of_is_SomeI)
  then show "parentOf h c = Some p"
    by (simp add: parentOf_def)
qed

lemma parentOf_known: "parentOf h c = Some p \<Longrightarrow> c \<in> fst ` set h"
  by (auto simp: parentOf_def split: option.splits dest!: map_of_SomeD intro: rev_image_eqI)

lemma up_add: "up h (a + b) d = (case up h a d of None \<Rightarrow> None | Some x \<Rightarrow> up h b x)"
  by (induction a arbitrary: d) (auto split: option.splits)

lemma up_Suc_right:
  "up h (Suc a) d = (case up h a d of None \<Rightarrow> None | Some x \<Rightarrow> parentOf h x)"
  using up_add[of h a 1 d] by (auto split: option.splits)

lemma up_prefix: "up h b d = Some p \<Longrightarrow> a \<le> b \<Longrightarrow> \<exists>x. up h a d = Some x"
  using up_add[of h a "b - a" d] by (auto split: option.splits)

lemma up_known:
  assumes "up h b d = Some p" "a < b"
  shows "\<exists>x. up h a d = Some x \<and> x \<in> fst ` set h"
proof -
  from up_prefix[OF assms(1), of "Suc a"] assms(2) obtain y where y: "up h (Suc a) d = Some y"
    by auto
  then obtain x where "up h a d = Some x" "parentOf h x = Some y"
    by (auto simp: up_Suc_right simp del: up.simps split: option.splits)
  then show ?thesis
    using parentOf_known by blast
qed

lemma descIds_iff_up:
  assumes "distinct (map fst h)"
  shows "d \<in> set (descIds k h p) \<longleftrightarrow> (\<exists>j. 1 \<le> j \<and> j \<le> k \<and> up h j d = Some p)"
proof (induction k arbitrary: p)
  case 0
  show ?case by simp
next
  case (Suc k)
  show ?case
  proof
    assume "d \<in> set (descIds (Suc k) h p)"
    then obtain c where c: "c \<in> set (childIds h p)" "d = c \<or> d \<in> set (descIds k h c)"
      unfolding descIds_Suc_mem by blast
    then have pc: "parentOf h c = Some p"
      by (simp add: childIds_mem parentOf_iff[OF assms])
    show "\<exists>j. 1 \<le> j \<and> j \<le> Suc k \<and> up h j d = Some p"
    proof (cases "d = c")
      case True
      with pc have "up h 1 d = Some p" by simp
      then show ?thesis by (intro exI[of _ 1]) simp
    next
      case False
      with c(2) Suc.IH obtain j where j: "1 \<le> j" "j \<le> k" "up h j d = Some c"
        by blast
      with pc have "up h (Suc j) d = Some p"
        by (simp add: up_Suc_right del: up.simps)
      with j show ?thesis by (intro exI[of _ "Suc j"]) simp
    qed
  next
    assume "\<exists>j. 1 \<le> j \<and> j \<le> Suc k \<and> up h j d = Some p"
    then obtain j where j: "1 \<le> j" "j \<le> Suc k" "up h j d = Some p"
      by blast
    then obtain i where i: "j = Suc i" by (cases j) auto
    with j(3) obtain c where c: "up h i d = Some c" "parentOf h c = Some p"
      by (auto simp: up_Suc_right simp del: up.simps split: option.splits)
    then have child: "c \<in> set (childIds h p)"
      by (simp add: childIds_mem parentOf_iff[OF assms])
    show "d \<in> set (descIds (Suc k) h p)"
    proof (cases i)
      case 0
      with c(1) have "d = c" by simp
      with child show ?thesis unfolding descIds_Suc_mem by blast
    next
      case (Suc i')
      with c(1) i j(2) have "d \<in> set (descIds k h c)"
        using Suc.IH[of c] by auto
      with child show ?thesis unfolding descIds_Suc_mem by blast
    qed
  qed
qed

text \<open>Two subtrees that share a node are nested.\<close>

lemma descIds_nested:
  assumes dist: "distinct (map fst h)"
    and "d \<in> set (descIds k h n)" "d \<in> set (descIds k h m)" "n \<noteq> m"
  shows "n \<in> set (descIds k h m) \<or> m \<in> set (descIds k h n)"
proof -
  from assms obtain a b where a: "1 \<le> a" "a \<le> k" "up h a d = Some n"
    and b: "1 \<le> b" "b \<le> k" "up h b d = Some m"
    unfolding descIds_iff_up[OF dist] by blast
  have "a \<noteq> b"
    using a(3) b(3) assms(4) by auto
  then consider "a < b" | "b < a" by linarith
  then show ?thesis
  proof cases
    case 1
    then have "up h (b - a) n = Some m"
      using up_add[of h a "b - a" d] a(3) b(3) by simp
    moreover have "1 \<le> b - a" "b - a \<le> k"
      using 1 b(2) by linarith+
    ultimately have "n \<in> set (descIds k h m)"
      unfolding descIds_iff_up[OF dist] by blast
    then show ?thesis ..
  next
    case 2
    then have "up h (a - b) m = Some n"
      using up_add[of h b "a - b" d] a(3) b(3) by simp
    moreover have "1 \<le> a - b" "a - b \<le> k"
      using 2 a(2) by linarith+
    ultimately have "m \<in> set (descIds k h n)"
      unfolding descIds_iff_up[OF dist] by blast
    then show ?thesis ..
  qed
qed

text \<open>In a hierarchy without cycles no chain of parents is longer than the hierarchy.\<close>

lemma chain_bounded:
  assumes dist: "distinct (map fst h)"
    and acyclic: "\<forall>x \<in> fst ` set h. x \<notin> set (descIds (length h) h x)"
    and chain: "up h j d = Some p"
  shows "j \<le> length h"
proof (rule ccontr)
  assume "\<not> j \<le> length h"
  then have long: "length h < j" by simp
  define f where "f i = the (up h i d)" for i
  have known: "up h i d = Some (f i) \<and> f i \<in> fst ` set h" if "i \<le> length h" for i
  proof -
    from that long have "i < j" by simp
    from up_known[OF chain this] obtain x where "up h i d = Some x" "x \<in> fst ` set h"
      by blast
    then show ?thesis by (simp add: f_def)
  qed
  have "f ` {0..length h} \<subseteq> fst ` set h"
    using known by auto
  then have "card (f ` {0..length h}) \<le> card (fst ` set h)"
    by (intro card_mono) auto
  also have "\<dots> \<le> length h"
    by (metis card_length length_map set_map)
  finally have "card (f ` {0..length h}) < card {0..length h}"
    by simp
  then have "\<not> inj_on f {0..length h}"
    by (rule pigeonhole)
  then obtain a b where ab: "a \<le> length h" "b \<le> length h" "a < b" "f a = f b"
    by (auto simp: inj_on_def) (metis linorder_neqE_nat)
  have "up h (b - a) (f a) = Some (f a)"
    using up_add[of h a "b - a" d] known[OF ab(1)] known[OF ab(2)] ab(3,4) by simp
  moreover have "1 \<le> b - a" "b - a \<le> length h"
    using ab by linarith+
  ultimately have "f a \<in> set (descIds (length h) h (f a))"
    unfolding descIds_iff_up[OF dist] by blast
  with acyclic known[OF ab(1)] show False by blast
qed

lemma descIds_trans:
  assumes dist: "distinct (map fst h)"
    and acyclic: "\<forall>x \<in> fst ` set h. x \<notin> set (descIds (length h) h x)"
    and "d \<in> set (descIds (length h) h m)" "m \<in> set (descIds (length h) h n)"
  shows "d \<in> set (descIds (length h) h n)"
proof -
  from assms obtain a b where a: "1 \<le> a" "up h a d = Some m" and b: "up h b m = Some n"
    unfolding descIds_iff_up[OF dist] by blast
  then have chain: "up h (a + b) d = Some n"
    by (simp add: up_add)
  moreover have "1 \<le> a + b" "a + b \<le> length h"
    using chain_bounded[OF dist acyclic chain] a(1) by linarith+
  ultimately show ?thesis
    unfolding descIds_iff_up[OF dist] by blast
qed

subsection \<open>The bound on the recursion of descendants\<close>

lemma wellFormed_hierarchy:
  assumes "wellFormed w"
  shows "distinct (map fst (hierarchy w))"
    and "\<forall>x \<in> fst ` set (hierarchy w). x \<notin> set (descIds (length (hierarchy w)) (hierarchy w) x)"
proof -
  show "distinct (map fst (hierarchy w))"
    using wellFormed_distinct(1)[OF assms] by simp
  have "node_id n \<notin> set (descendantIds w (node_id n))" if "n \<in> set (nodes w)" for n
    using assms that by (simp add: wellFormed_def descendantIds_def)
  then show "\<forall>x \<in> fst ` set (hierarchy w).
               x \<notin> set (descIds (length (hierarchy w)) (hierarchy w) x)"
    unfolding descendantIds_hierarchy by (auto simp: hierarchy_def shape_def)
qed

lemma child_parentOf:
  assumes "distinct (map node_id ns)" "c \<in> set (children ns p)"
  shows "parentOf (map shape ns) (node_id c) = Some p"
proof -
  have "(node_id c, Some p) \<in> set (map shape ns)"
    using assms(2) by (force simp: children_def shape_def)
  moreover have "distinct (map fst (map shape ns))"
    using assms(1) by (simp add: shape_def comp_def)
  ultimately show ?thesis
    by (simp add: parentOf_iff)
qed

lemma descendants_fuel_stable:
  assumes "distinct (map node_id ns)" "\<forall>d. up (map shape ns) (Suc k) d \<noteq> Some p"
  shows "descendants_fuel (Suc k) ns p = descendants_fuel k ns p"
  using assms(2)
proof (induction k arbitrary: p)
  case 0
  have "children ns p = []"
  proof (rule ccontr)
    assume "children ns p \<noteq> []"
    then obtain c where "c \<in> set (children ns p)"
      by (cases "children ns p") auto
    from child_parentOf[OF assms(1) this] 0 show False
      by (auto dest: spec[of _ "node_id c"])
  qed
  then show ?case by simp
next
  case (Suc k)
  have "descendants_fuel (Suc k) ns (node_id c) = descendants_fuel k ns (node_id c)"
    if "c \<in> set (children ns p)" for c
  proof (rule Suc.IH, rule allI, rule notI)
    fix d
    assume "up (map shape ns) (Suc k) d = Some (node_id c)"
    with child_parentOf[OF assms(1) that] have "up (map shape ns) (Suc (Suc k)) d = Some p"
      by (simp add: up_Suc_right[of _ "Suc k"] del: up.simps)
    with Suc.prems show False by blast
  qed
  then have eq: "map (\<lambda>c. c # descendants_fuel (Suc k) ns (node_id c)) (children ns p)
               = map (\<lambda>c. c # descendants_fuel k ns (node_id c)) (children ns p)"
    by (intro map_cong) simp_all
  have "descendants_fuel (Suc (Suc k)) ns p
          = concat (map (\<lambda>c. c # descendants_fuel (Suc k) ns (node_id c)) (children ns p))"
    by (rule descendants_fuel.simps(2))
  also have "\<dots> = concat (map (\<lambda>c. c # descendants_fuel k ns (node_id c)) (children ns p))"
    by (simp only: eq)
  also have "\<dots> = descendants_fuel (Suc k) ns p"
    by (rule descendants_fuel.simps(2)[symmetric])
  finally show ?case .
qed

text \<open>
  More fuel than the number of nodes changes nothing: \<^verbatim>\<open>node.descendants()\<close>, which has no
  bound, gives the list the model gives.
\<close>

lemma descendants_fuel_enough:
  assumes "wellFormed w" "length (nodes w) \<le> k"
  shows "descendants_fuel k (nodes w) p = descendants w p"
  using assms(2)
proof (induction k)
  case 0
  then show ?case by (simp add: descendants_def)
next
  case (Suc k)
  show ?case
  proof (cases "length (nodes w) \<le> k")
    case True
    have "up (map shape (nodes w)) (Suc k) d \<noteq> Some p" for d
    proof
      assume "up (map shape (nodes w)) (Suc k) d = Some p"
      from chain_bounded[OF wellFormed_hierarchy[OF assms(1)], unfolded hierarchy_def, OF this]
      show False using True by simp
    qed
    then have "descendants_fuel (Suc k) (nodes w) p = descendants_fuel k (nodes w) p"
      by (intro descendants_fuel_stable wellFormed_distinct(1)[OF assms(1)]) simp
    with Suc.IH[OF True] show ?thesis by simp
  next
    case False
    with Suc.prems have "Suc k = length (nodes w)" by simp
    then show ?thesis by (simp only: descendants_def)
  qed
qed

subsection \<open>Collapse records in reachable states\<close>

lemma descendantIds_cong:
  "hierarchy w' = hierarchy w \<Longrightarrow> descendantIds w' n = descendantIds w n"
  by (simp add: descendantIds_hierarchy)

lemma restoreLocalPositions_other:
  "k \<noteq> n \<Longrightarrow> savedPositionsMap (restoreLocalPositions opts w n) k = savedPositionsMap w k"
  by (simp add: restoreLocalPositions_def Let_def split: option.splits)

lemma collapse_frame:
  assumes "isParent w n" "n \<notin> collapsedIds w"
  shows "hierarchy (snd (collapse opts w n)) = hierarchy w"
    and "collapsedIds (snd (collapse opts w n)) = insert n (collapsedIds w)"
    and "hiddenElementsMap (snd (collapse opts w n))
           = (hiddenElementsMap w)(n \<mapsto> descendantIds w n)"
    and "\<exists>m. savedPositionsMap (snd (collapse opts w n)) = (savedPositionsMap w)(n \<mapsto> m)
             \<and> dom m = set (descendantIds w n)"
proof -
  show "hierarchy (snd (collapse opts w n)) = hierarchy w"
    and "collapsedIds (snd (collapse opts w n)) = insert n (collapsedIds w)"
    and "hiddenElementsMap (snd (collapse opts w n))
           = (hiddenElementsMap w)(n \<mapsto> descendantIds w n)"
    by (simp_all add: collapse_success[OF assms])
  define m where "m = fold (\<lambda>child m. m(node_id child \<mapsto>
         (fst (node_position child) - fst (positionOf w n),
          snd (node_position child) - snd (positionOf w n)))) (descendants w n) Map.empty"
  have "savedPositionsMap (snd (collapse opts w n)) = (savedPositionsMap w)(n \<mapsto> m)"
    by (simp add: collapse_success[OF assms] savedPositionsMap_hideSubtree m_def)
  moreover have "dom m = set (descendantIds w n)"
    by (simp add: m_def fold_upd_dom descendantIds_def)
  ultimately show "\<exists>m. savedPositionsMap (snd (collapse opts w n))
                          = (savedPositionsMap w)(n \<mapsto> m)
                        \<and> dom m = set (descendantIds w n)"
    by blast
qed

lemma expand_frame:
  assumes "n \<in> collapsedIds w"
  shows "hierarchy (snd (expand opts w n)) = hierarchy w"
    and "collapsedIds (snd (expand opts w n)) = collapsedIds w - {n}"
    and "hiddenElementsMap (snd (expand opts w n)) = (hiddenElementsMap w)(n := None)"
    and "k \<noteq> n \<Longrightarrow> savedPositionsMap (snd (expand opts w n)) k = savedPositionsMap w k"
  by (simp_all add: expand_success[OF assms] restoreLocalPositions_other)

lemma collapse_keeps_hierarchy: "hierarchy (snd (collapse opts w n)) = hierarchy w"
proof (cases "isParent w n \<and> n \<notin> collapsedIds w")
  case True
  then show ?thesis by (simp add: collapse_frame(1))
next
  case False
  then have "snd (collapse opts w n) = w"
    by (auto simp: collapse_def)
  then show ?thesis by simp
qed

lemma expand_keeps_hierarchy: "hierarchy (snd (expand opts w n)) = hierarchy w"
  by (cases "n \<in> collapsedIds w") (auto simp: expand_frame(1) expand_def)

lemma reachable_hierarchy: "reachable opts w0 w \<Longrightarrow> hierarchy w = hierarchy w0"
  by (induction rule: reachable.induct)
     (simp_all add: collapse_keeps_hierarchy expand_keeps_hierarchy)

lemma reachable_records:
  assumes "reachable opts w0 w" "collapsedIds w0 = {}" "n \<in> collapsedIds w"
  shows "hiddenElementsMap w n = Some (descendantIds w0 n)
         \<and> (\<exists>m. savedPositionsMap w n = Some m \<and> dom m = set (descendantIds w0 n))"
  using assms
proof (induction arbitrary: n rule: reachable.induct)
  case reachable_init
  then show ?case by simp
next
  case (reachable_collapse w c)
  have h: "hierarchy w = hierarchy w0"
    by (rule reachable_hierarchy[OF reachable_collapse.hyps])
  show ?case
  proof (cases "isParent w c \<and> c \<notin> collapsedIds w")
    case True
    then have ok: "isParent w c" "c \<notin> collapsedIds w" by simp_all
    from collapse_frame(4)[OF ok, of opts] obtain m where
      m: "savedPositionsMap (snd (collapse opts w c)) = (savedPositionsMap w)(c \<mapsto> m)"
         "dom m = set (descendantIds w c)"
      by blast
    show ?thesis
    proof (cases "n = c")
      case True
      then show ?thesis
        by (simp add: collapse_frame(3)[OF ok] m descendantIds_cong[OF h])
    next
      case False
      with reachable_collapse.prems(2) have "n \<in> collapsedIds w"
        by (simp add: collapse_frame(2)[OF ok])
      from reachable_collapse.IH[OF reachable_collapse.prems(1) this] False show ?thesis
        by (simp add: collapse_frame(3)[OF ok] m)
    qed
  next
    case False
    then have "snd (collapse opts w c) = w"
      by (auto simp: collapse_def)
    with reachable_collapse show ?thesis by simp
  qed
next
  case (reachable_expand w c)
  show ?case
  proof (cases "c \<in> collapsedIds w")
    case True
    with reachable_expand.prems(2) have n: "n \<in> collapsedIds w" "n \<noteq> c"
      by (simp_all add: expand_frame(2)[OF True])
    from reachable_expand.IH[OF reachable_expand.prems(1) n(1)] n(2) show ?thesis
      by (simp add: expand_frame(3)[OF True] expand_frame(4)[OF True n(2)])
  next
    case False
    then have "snd (expand opts w c) = w"
      by (simp add: expand_def)
    with reachable_expand show ?thesis by simp
  qed
qed

lemma reachable_recordIds:
  assumes "reachable opts w0 w" "collapsedIds w0 = {}" "n \<in> collapsedIds w"
  shows "recordIds w n = set (descendantIds w0 n)"
  using reachable_records[OF assms] by (auto simp: recordIds_def)

subsection \<open>Passes of the overlap resolver\<close>

lemma separateFrom_flag:
  "snd (separateFrom bb pad i js (w, True))"
  by (induction js arbitrary: w) (auto split: option.splits)

lemma separateFrom_quiet:
  "\<not> hasOverlapsFrom bb w i js \<Longrightarrow> separateFrom bb pad i js (w, h) = (w, h)"
  by (induction js) (auto split: option.splits if_splits)

lemma separateFrom_found:
  "hasOverlapsFrom bb w i js \<Longrightarrow> snd (separateFrom bb pad i js (w, h))"
  by (induction js) (auto split: option.splits if_splits simp: separateFrom_flag)

lemma separateIn_flag:
  "snd (separateIn bb pad is (w, True))"
proof (induction "is" arbitrary: w)
  case Nil
  show ?case by simp
next
  case (Cons i rest)
  obtain w' where "separateFrom bb pad i rest (w, True) = (w', True)"
    using separateFrom_flag[of bb pad i rest w]
    by (cases "separateFrom bb pad i rest (w, True)") auto
  with Cons.IH[of w'] show ?case by simp
qed

lemma separateIn_quiet:
  "\<not> hasOverlapsIn bb w is \<Longrightarrow> separateIn bb pad is (w, h) = (w, h)"
  by (induction "is") (auto simp: separateFrom_quiet split: if_splits)

lemma separateIn_found:
  "hasOverlapsIn bb w is \<Longrightarrow> snd (separateIn bb pad is (w, h))"
proof (induction "is")
  case Nil
  then show ?case by simp
next
  case (Cons i rest)
  show ?case
  proof (cases "hasOverlapsFrom bb w i rest")
    case True
    then obtain w' where "separateFrom bb pad i rest (w, h) = (w', True)"
      using separateFrom_found[of bb w i rest pad h]
      by (cases "separateFrom bb pad i rest (w, h)") auto
    then show ?thesis
      by (simp add: separateIn_flag)
  next
    case False
    with Cons show ?thesis
      by (simp add: separateFrom_quiet)
  qed
qed

lemma resolvePass_flag: "snd (resolvePass bb pad w) = hasOverlaps bb w"
  by (cases "hasOverlaps bb w")
     (simp_all add: resolvePass_def hasOverlaps_def separateIn_found separateIn_quiet)

lemma resolvePass_quiet: "\<not> hasOverlaps bb w \<Longrightarrow> fst (resolvePass bb pad w) = w"
  by (simp add: resolvePass_def hasOverlaps_def separateIn_quiet)

lemma afterPasses_shift:
  "afterPasses bb pad k (fst (resolvePass bb pad w)) = afterPasses bb pad (Suc k) w"
  by (induction k) simp_all

lemma resolveLoop_step:
  "h \<Longrightarrow> it < M \<Longrightarrow>
   resolveLoop bb pad M w h it
     = resolveLoop bb pad M (fst (resolvePass bb pad w)) (snd (resolvePass bb pad w)) (Suc it)"
  by (simp add: resolveLoop.simps[of bb pad M w True it] Let_def)

lemma resolveLoop_stop:
  "\<not> (h \<and> it < M) \<Longrightarrow> resolveLoop bb pad M w h it = (w, h, it)"
  by (subst resolveLoop.simps) auto

lemma resolveLoop_props:
  assumes "it \<le> M" "resolveLoop bb pad M w h it = (w', h', it')"
  shows "it \<le> it' \<and> it' \<le> M \<and> (h' \<longrightarrow> it' = M) \<and> (it < it' \<longrightarrow> h)
     \<and> (it' = it \<longrightarrow> h' = h)
     \<and> w' = afterPasses bb pad (it' - it) w
     \<and> (it < it' \<longrightarrow> h' = hasOverlaps bb (afterPasses bb pad (it' - it - 1) w))
     \<and> (\<forall>j. Suc j < it' - it \<longrightarrow> hasOverlaps bb (afterPasses bb pad j w))"
  using assms
proof (induction bb pad M w h it arbitrary: w' h' it' rule: resolveLoop.induct)
  case (1 bb pad M w h it)
  show ?case
  proof (cases "h \<and> it < M")
    case False
    with "1.prems" have "w' = w" "h' = h" "it' = it"
      by (simp_all add: resolveLoop_stop)
    with False "1.prems"(1) show ?thesis
      by auto
  next
    case True
    define r where "r = resolvePass bb pad w"
    have flag: "snd r = hasOverlaps bb w"
      by (simp add: r_def resolvePass_flag)
    have "resolveLoop bb pad M w h it = resolveLoop bb pad M (fst r) (snd r) (Suc it)"
      unfolding r_def by (rule resolveLoop_step) (use True in simp_all)
    from this[symmetric] "1.prems"(2)
    have rec: "resolveLoop bb pad M (fst r) (snd r) (Suc it) = (w', h', it')"
      by (rule trans)
    from True have le: "Suc it \<le> M" by simp
    from "1.IH"[OF True r_def le rec]
    have IH: "Suc it \<le> it'" "it' \<le> M" "h' \<longrightarrow> it' = M" "Suc it < it' \<longrightarrow> snd r"
      "it' = Suc it \<longrightarrow> h' = snd r"
      "w' = afterPasses bb pad (it' - Suc it) (fst r)"
      "Suc it < it' \<longrightarrow> h' = hasOverlaps bb (afterPasses bb pad (it' - Suc it - 1) (fst r))"
      "\<forall>j. Suc j < it' - Suc it \<longrightarrow> hasOverlaps bb (afterPasses bb pad j (fst r))"
      by blast+
    have d: "it' - it = Suc (it' - Suc it)"
      using IH(1) by simp
    have world: "w' = afterPasses bb pad (it' - it) w"
      unfolding d using IH(6) by (simp only: r_def afterPasses_shift)
    have last: "h' = hasOverlaps bb (afterPasses bb pad (it' - it - 1) w)"
    proof (cases "it' = Suc it")
      case True
      with IH(5) flag show ?thesis by simp
    next
      case False
      with IH(1) have lt: "Suc it < it'" by simp
      then have "it' - it - 1 = Suc (it' - Suc it - 1)" by simp
      with IH(7) lt show ?thesis
        by (simp only: r_def afterPasses_shift)
    qed
    have earlier: "hasOverlaps bb (afterPasses bb pad j w)" if "Suc j < it' - it" for j
    proof (cases j)
      case 0
      from that have "Suc it < it'" by simp
      with IH(4) flag 0 show ?thesis by simp
    next
      case (Suc j')
      with that have "Suc j' < it' - Suc it" by simp
      with IH(8) have "hasOverlaps bb (afterPasses bb pad j' (fst r))" by blast
      then show ?thesis
        unfolding Suc by (simp only: r_def afterPasses_shift)
    qed
    have "it \<le> it'" "it < it'" "it' \<noteq> it"
      using IH(1) by simp_all
    with IH(2,3) True world last earlier show ?thesis
      by blast
  qed
qed

lemma separateNodes_emitted [simp]: "emitted (separateNodes w i j ov pad) = emitted w"
  by (simp add: separateNodes_def Let_def)

lemma separateFrom_emitted [simp]:
  "emitted (fst (separateFrom bb pad i js (w, h))) = emitted w"
  by (induction js arbitrary: w h) (auto split: option.splits)

lemma separateIn_emitted [simp]:
  "emitted (fst (separateIn bb pad is (w, h))) = emitted w"
proof (induction "is" arbitrary: w h)
  case Nil
  show ?case by simp
next
  case (Cons i rest)
  obtain w' h' where step: "separateFrom bb pad i rest (w, h) = (w', h')"
    by (cases "separateFrom bb pad i rest (w, h)")
  then have "emitted w' = emitted w"
    using separateFrom_emitted[of bb pad i rest w h] by simp
  with Cons.IH[of w' h'] step show ?case by simp
qed

lemma afterPasses_emitted [simp]: "emitted (afterPasses bb pad k w) = emitted w"
  by (induction k) (simp_all add: resolvePass_def)

text \<open>Emitting an event changes nothing the scans look at.\<close>

lemma ancestors_emitted [simp]: "ancestors (w\<lparr>emitted := x\<rparr>) i = ancestors w i"
  by (simp add: ancestors_def)

lemma related_emitted [simp]: "related (w\<lparr>emitted := x\<rparr>) i j = related w i j"
  by (simp add: related_def)

lemma nodeOverlap_emitted [simp]:
  "nodeOverlap bb (w\<lparr>emitted := x\<rparr>) i j = nodeOverlap bb w i j"
  by (simp add: nodeOverlap_def cong: option.case_cong)

lemma hasOverlapsFrom_emitted [simp]:
  "hasOverlapsFrom bb (w\<lparr>emitted := x\<rparr>) i js = hasOverlapsFrom bb w i js"
  by (induction js) simp_all

lemma hasOverlapsIn_emitted [simp]:
  "hasOverlapsIn bb (w\<lparr>emitted := x\<rparr>) is = hasOverlapsIn bb w is"
  by (induction "is") simp_all

lemma visibleLeaves_emitted [simp]: "visibleLeaves (w\<lparr>emitted := x\<rparr>) = visibleLeaves w"
  by (simp add: visibleLeaves_def getVisibleNodes_def isParent_def)

lemma hasOverlaps_emitted [simp]: "hasOverlaps bb (w\<lparr>emitted := x\<rparr>) = hasOverlaps bb w"
  by (simp add: hasOverlaps_def)

lemma maxIterationsOf_positive: "1 \<le> maxIterationsOf opts"
  by (simp add: maxIterationsOf_def split: option.splits)

subsection \<open>The bound on the recursion of ancestors\<close>

lemma parentOf_find:
  "parentOf (map shape ns) i
     = (case find (\<lambda>n. node_id n = i) ns of None \<Rightarrow> None | Some n \<Rightarrow> node_parent n)"
  by (induction ns) (auto simp: parentOf_def shape_def split: option.splits)

lemma ancestors_fuel_stable:
  "up (map shape ns) (Suc k) i = None \<Longrightarrow> ancestors_fuel (Suc k) ns i = ancestors_fuel k ns i"
proof (induction k arbitrary: i)
  case 0
  then show ?case
    by (auto simp: parentOf_find split: option.splits)
next
  case (Suc k)
  show ?case
  proof (cases "parentOf (map shape ns) i")
    case None
    then show ?thesis
      by (auto simp: parentOf_find split: option.splits)
  next
    case (Some p)
    with Suc.prems have "up (map shape ns) (Suc k) p = None"
      by simp
    from Suc.IH[OF this] Some show ?thesis
      by (auto simp: parentOf_find split: option.splits)
  qed
qed

lemma ancestors_fuel_enough:
  assumes "wellFormed w" "length (nodes w) \<le> k"
  shows "ancestors_fuel k (nodes w) i = ancestors w i"
  using assms(2)
proof (induction k)
  case 0
  then show ?case by (simp add: ancestors_def)
next
  case (Suc k)
  show ?case
  proof (cases "length (nodes w) \<le> k")
    case True
    have "up (map shape (nodes w)) (Suc k) i = None"
    proof (rule ccontr)
      assume "up (map shape (nodes w)) (Suc k) i \<noteq> None"
      then obtain p where "up (map shape (nodes w)) (Suc k) i = Some p"
        by blast
      from chain_bounded[OF wellFormed_hierarchy[OF assms(1)], unfolded hierarchy_def, OF this]
      show False using True by simp
    qed
    then have "ancestors_fuel (Suc k) (nodes w) i = ancestors_fuel k (nodes w) i"
      by (rule ancestors_fuel_stable)
    with Suc.IH[OF True] show ?thesis by simp
  next
    case False
    with Suc.prems have "Suc k = length (nodes w)" by simp
    then show ?thesis by (simp only: ancestors_def)
  qed
qed

subsection \<open>Keys of identifiers without a colon\<close>

lemma split_no_separator: "sep \<notin> set x \<Longrightarrow> split sep x = [x]"
  by (induction x) auto

lemma split_prefix:
  "sep \<notin> set p \<Longrightarrow> split sep (p @ sep # x) = p # split sep x"
  by (induction p) (auto split: list.splits)

lemma key_of_plain_id:
  assumes "CHR '':'' \<notin> set x"
  shows "keyDirection (''out:'' @ x) = ''out''" "keyExternalId (''out:'' @ x) = Some x"
    "keyDirection (''in:'' @ x) = ''in''" "keyExternalId (''in:'' @ x) = Some x"
  using split_prefix[of "CHR '':''" "''out''" x] split_prefix[of "CHR '':''" "''in''" x]
        split_no_separator[OF assms]
  by (simp_all add: keyDirection_def keyExternalId_def)

lemma key_direction_any_id:
  "keyDirection (''out:'' @ x) = ''out''" "keyDirection (''in:'' @ x) = ''in''"
  using split_prefix[of "CHR '':''" "''out''" x] split_prefix[of "CHR '':''" "''in''" x]
  by (simp_all add: keyDirection_def)

section \<open>The example graphs are well formed\<close>

lemma examples_wellFormed:
  "wellFormed testGraph" "wellFormed nestedGraph" "wellFormed deepGraph"
  "wellFormed colonGraph" "wellFormed ownEdgeGraph" "wellFormed layoutGraph"
  by code_simp+

section \<open>Invalid operations and idempotence\<close>

lemma collapse_success_collapsed:
  "fst (collapse opts w n) \<Longrightarrow> n \<in> collapsedIds (snd (collapse opts w n))"
  by (simp add: collapse_def Let_def split: if_splits)

lemma collapse_failure_same:
  "\<not> fst (collapse opts w n) \<Longrightarrow> snd (collapse opts w n) = w"
  by (simp add: collapse_def Let_def split: if_splits)

text \<open>
  Claim C6. Collapsing a node without children or a node that is already collapsed, and
  expanding a node that is not collapsed, return false and leave the whole world (graph,
  hidden set, collapsed set, saved positions, projection records, emitted events) as it
  was; so a leaf that was not collapsed is not collapsed afterwards. The public methods,
  which return the API object instead of the boolean, leave the world unchanged as well.
\<close>

theorem invalid_operations_noop:
  "(children (nodes w) n = [] \<or> n \<in> collapsedIds w \<longrightarrow> collapse opts w n = (False, w))
   \<and> (n \<notin> collapsedIds w \<longrightarrow> expand opts w n = (False, w))
   \<and> (children (nodes w) n = [] \<and> \<not> isCollapsedNode w n \<longrightarrow>
        \<not> isCollapsedNode (snd (collapse opts w n)) n)
   \<and> (children (nodes w) n = [] \<or> n \<in> collapsedIds w \<longrightarrow> apiCollapse opts w [n] = w)
   \<and> (n \<notin> collapsedIds w \<longrightarrow> apiExpand opts w [n] = w)"
  by (auto simp: collapse_def expand_def isParent_def apiCollapse_def apiExpand_def)

theorem invalid_operations_noop_witness:
  "children (nodes testGraph) ''external1'' = []
   \<and> collapse defaultOpts testGraph ''external1'' = (False, testGraph)
   \<and> \<not> isCollapsedNode (snd (collapse defaultOpts testGraph ''external1'')) ''external1''
   \<and> ''parent2'' \<notin> collapsedIds testGraph
   \<and> expand defaultOpts testGraph ''parent2'' = (False, testGraph)
   \<and> ''parent1'' \<in> collapsedIds (snd (collapse defaultOpts testGraph ''parent1''))
   \<and> collapse defaultOpts (snd (collapse defaultOpts testGraph ''parent1'')) ''parent1''
       = (False, snd (collapse defaultOpts testGraph ''parent1''))"
proof -
  have leaf: "children (nodes testGraph) ''external1'' = []"
    by code_simp
  have fresh: "''external1'' \<notin> collapsedIds testGraph" "''parent2'' \<notin> collapsedIds testGraph"
    by code_simp+
  have again: "''parent1'' \<in> collapsedIds (snd (collapse defaultOpts testGraph ''parent1''))"
    by code_simp
  from invalid_operations_noop[of testGraph "''external1''" defaultOpts]
       invalid_operations_noop[of testGraph "''parent2''" defaultOpts]
       invalid_operations_noop[of "snd (collapse defaultOpts testGraph ''parent1'')"
                                  "''parent1''" defaultOpts]
       leaf fresh again
  show ?thesis
    by (simp add: isCollapsedNode_def)
qed

text \<open>
  Claim C7. A second \<open>collapse\<close> of the same node right after the first one returns false
  and gives the very world the first call gave: the same hidden elements, the same edges
  and the same projection records.
\<close>

theorem collapse_idempotent:
  "snd (collapse opts (snd (collapse opts w n)) n) = snd (collapse opts w n)
   \<and> \<not> fst (collapse opts (snd (collapse opts w n)) n)"
proof (cases "fst (collapse opts w n)")
  case True
  then have "n \<in> collapsedIds (snd (collapse opts w n))"
    by (rule collapse_success_collapsed)
  then show ?thesis
    by (simp add: collapse_def[of opts "snd (collapse opts w n)"])
next
  case False
  then have "snd (collapse opts w n) = w"
    by (rule collapse_failure_same)
  with False show ?thesis by simp
qed

theorem collapse_idempotent_witness:
  "fst (collapse defaultOpts testGraph ''parent1'')
   \<and> snd (collapse defaultOpts (snd (collapse defaultOpts testGraph ''parent1'')) ''parent1'')
       = snd (collapse defaultOpts testGraph ''parent1'')
   \<and> \<not> fst (collapse defaultOpts (snd (collapse defaultOpts testGraph ''parent1'')) ''parent1'')
   \<and> hiddenIds (snd (collapse defaultOpts testGraph ''parent1''))
       = {''child1'', ''child2'', ''e1'', ''e2'', ''e3''}"
proof -
  have first: "fst (collapse defaultOpts testGraph ''parent1'')"
    by code_simp
  have hidden: "hiddenIds (snd (collapse defaultOpts testGraph ''parent1''))
                  = {''child1'', ''child2'', ''e1'', ''e2'', ''e3''}"
    by code_simp
  from collapse_idempotent[of defaultOpts testGraph "''parent1''"] first hidden
  show ?thesis by simp
qed

section \<open>Nested collapse\<close>

text \<open>
  Claim C5. In the hierarchy \<open>a \<supset> i \<supset> p \<supset> d\<close>, after \<open>collapse i\<close>, \<open>collapse a\<close> and
  \<open>expand a\<close> the inner node \<open>i\<close> is still collapsed and its child \<open>p\<close> is still hidden, but
  its descendant \<open>d\<close> has been shown: \<open>expand\<close> looks at the direct parent of \<open>d\<close> only,
  which is \<open>p\<close>, a node that is hidden but not itself collapsed.
\<close>

theorem nested_expand_shows_deep_descendant:
  "fst (collapse plainOpts deepGraph ''i'')
   \<and> fst (collapse plainOpts (snd (collapse plainOpts deepGraph ''i'')) ''a'')
   \<and> fst (expand plainOpts
        (snd (collapse plainOpts (snd (collapse plainOpts deepGraph ''i'')) ''a'')) ''a'')
   \<and> map node_id (descendants deepGraph ''i'') = [''p'', ''d'']
   \<and> isHiddenEle (snd (collapse plainOpts (snd (collapse plainOpts deepGraph ''i'')) ''a'')) ''d''
   \<and> isCollapsedNode (snd (expand plainOpts
        (snd (collapse plainOpts (snd (collapse plainOpts deepGraph ''i'')) ''a'')) ''a'')) ''i''
   \<and> isHiddenEle (snd (expand plainOpts
        (snd (collapse plainOpts (snd (collapse plainOpts deepGraph ''i'')) ''a'')) ''a'')) ''p''
   \<and> \<not> isHiddenEle (snd (expand plainOpts
        (snd (collapse plainOpts (snd (collapse plainOpts deepGraph ''i'')) ''a'')) ''a'')) ''d''"
  by code_simp

section \<open>Projection keys\<close>

text \<open>
  Claim C2. In \<open>colonGraph\<close> the child of \<open>P\<close> has one edge to the external node \<open>a\<close> and
  one to the external node \<open>a:b\<close>. The two groups have the keys \<open>out:a\<close> and \<open>out:a:b\<close>;
  splitting the second key at the colons gives \<open>a\<close> as the external identifier again, so
  \<open>collapse P\<close> records two projection edges from \<open>P\<close> to \<open>a\<close> and none to \<open>a:b\<close>.
\<close>

theorem colon_id_two_projections_same_target:
  "fst (collapse plainOpts colonGraph ''P'')
   \<and> keyExternalId ''out:a:b'' = Some ''a''
   \<and> map (\<lambda>e. (edge_id e, edge_source e, edge_target e))
        (getProjectedEdges (snd (collapse plainOpts colonGraph ''P'')) ''P'')
       = [(''_proj_P_0'', ''P'', ''a''), (''_proj_P_1'', ''P'', ''a'')]"
  by code_simp

section \<open>Round trip of collapse and expand\<close>




section \<open>What a collapse hides and projects\<close>

text \<open>
  Claim C10, as stated, fails: \<open>collapse\<close> does not ask whether its node is visible. In the
  nested graph, after \<open>collapse grandparent\<close> the node \<open>parent\<close> is hidden; it is still a
  compound node that is not collapsed, so \<open>collapse parent\<close> succeeds, and \<open>parent\<close> is
  hidden right after it.
\<close>

theorem collapse_of_hidden_node_counterexample:
  "wellFormed (snd (collapse plainOpts nestedGraph ''grandparent''))
   \<and> fst (collapse plainOpts (snd (collapse plainOpts nestedGraph ''grandparent'')) ''parent'')
   \<and> isHiddenEle
        (snd (collapse plainOpts (snd (collapse plainOpts nestedGraph ''grandparent'')) ''parent''))
        ''parent''"
  by code_simp

text \<open>
  Claim C10, amended. A successful \<open>collapse P\<close> on a well-formed graph adds to the hidden
  set exactly the descendants of \<open>P\<close> and the edges with an endpoint among them; \<open>P\<close> is
  neither, so \<open>P\<close> is hidden after the call if and only if it was hidden before it.
\<close>

theorem collapse_hides_subtree_only:
  assumes wf: "wellFormed w" and par: "isParent w P" and fresh: "P \<notin> collapsedIds w"
  shows "fst (collapse opts w P)
     \<and> hiddenIds (snd (collapse opts w P))
         = hiddenIds w \<union> set (descendantIds w P)
           \<union> edge_id ` {e \<in> set (edges w). touches (set (descendantIds w P)) e}
     \<and> P \<notin> set (descendantIds w P)
     \<and> P \<notin> edge_id ` {e \<in> set (edges w). touches (set (descendantIds w P)) e}
     \<and> isHiddenEle (snd (collapse opts w P)) P = isHiddenEle w P"
proof -
  have notdesc: "P \<notin> set (descendantIds w P)"
    by (rule wellFormed_not_own_descendant[OF wf par])
  from par obtain nd where "getNode w P = Some nd"
    by (auto simp: isParent_def)
  then have "P \<in> set (map node_id (nodes w))"
    using getNode_id by force
  then have notedge: "P \<notin> edge_id ` {e \<in> set (edges w). touches (set (descendantIds w P)) e}"
    using wellFormed_node_vs_edge[OF wf] by blast
  have ok: "fst (collapse opts w P)"
    by (simp add: collapse_success[OF par fresh])
  show ?thesis
    using notdesc notedge ok
    by (simp add: collapse_hidden[OF par fresh])
qed

theorem collapse_hides_subtree_only_witness:
  "wellFormed testGraph \<and> isParent testGraph ''parent1''
   \<and> ''parent1'' \<notin> collapsedIds testGraph
   \<and> \<not> isHiddenEle testGraph ''parent1''
   \<and> fst (collapse defaultOpts testGraph ''parent1'')
   \<and> \<not> isHiddenEle (snd (collapse defaultOpts testGraph ''parent1'')) ''parent1''"
proof -
  have wf: "wellFormed testGraph"
    by (rule examples_wellFormed)
  have par: "isParent testGraph ''parent1''" and fresh: "''parent1'' \<notin> collapsedIds testGraph"
    and visible: "\<not> isHiddenEle testGraph ''parent1''"
    by code_simp+
  from collapse_hides_subtree_only[OF wf par fresh, of defaultOpts] wf par fresh visible
  show ?thesis by simp
qed

text \<open>
  Claim C3, as stated, fails for the edges whose inside endpoint is \<open>P\<close> itself:
  \<^verbatim>\<open>createProjections\<close> visits the edges of the descendants only. In \<open>ownEdgeGraph\<close> the
  edge \<open>e1\<close> from \<open>P\<close> to the external node \<open>X\<close> has exactly one endpoint in \<open>D \<union> {P}\<close>, and
  after \<open>collapse P\<close> it is neither hidden nor among the recorded boundary edges nor in a
  group.
\<close>

theorem own_edge_not_classified_counterexample:
  "mkEdge ''e1'' ''P'' ''X'' \<in> set (edges ownEdgeGraph)
   \<and> descendantIds ownEdgeGraph ''P'' = [''c'']
   \<and> boundary {''P'', ''c''} (mkEdge ''e1'' ''P'' ''X'')
   \<and> fst (collapse plainOpts ownEdgeGraph ''P'')
   \<and> \<not> isHiddenEle (snd (collapse plainOpts ownEdgeGraph ''P'')) ''e1''
   \<and> map_option originalIds (projectionEdgesMap (snd (collapse plainOpts ownEdgeGraph ''P'')) ''P'')
       = Some [''e2'', ''e5'']
   \<and> map (\<lambda>g. (fst g, map edge_id (snd g))) (projectionGroups ownEdgeGraph ''P'')
       = [(''out:X'', [''e2'']), (''in:X'', [''e5''])]"
  by code_simp

text \<open>
  Claim C3, amended. On a well-formed graph, every edge that has an endpoint among the
  descendants of \<open>P\<close> and exactly one endpoint in \<open>D \<union> {P}\<close> is hidden by \<open>collapse P\<close>,
  is recorded among the original boundary edges of \<open>P\<close>, and lies in the group whose key is
  made of its direction and its external endpoint; the record holds one projection id per
  group. (An edge whose only inside endpoint is \<open>P\<close> is left as it is.)
\<close>

theorem boundary_edges_projected_and_hidden:
  assumes wf: "wellFormed w" and par: "isParent w P" and fresh: "P \<notin> collapsedIds w"
    and e: "e \<in> set (edges w)"
    and touch: "touches (set (descendantIds w P)) e"
    and bound: "boundary (insert P (set (descendantIds w P))) e"
  shows "isHiddenEle (snd (collapse opts w P)) (edge_id e)
     \<and> edge_id e \<in> hiddenIds (snd (collapse opts w P))
     \<and> (\<exists>r. projectionEdgesMap (snd (collapse opts w P)) P = Some r
            \<and> edge_id e \<in> set (originalIds r)
            \<and> length (projIds r) = length (projectionGroups w P))
     \<and> (\<exists>es. (groupKey (insert P (set (descendantIds w P))) e, es) \<in> set (projectionGroups w P)
             \<and> edge_id e \<in> edge_id ` set es)"
proof -
  define S where "S = insert P (set (descendantIds w P))"
  define w4 where "w4 = hideSubtree w P"
  define ext where "ext = snd (snd (classifyEdges w4 S (descendants w P)))"
  have wiring: "wiring w4 = wiring w"
    by (simp add: w4_def)
  have dist4: "distinct (map edge_id (edges w4))"
    using wellFormed_distinct(2)[OF wf] fst_views(3)[of w4] fst_views(3)[of w] wiring by simp
  from edge_by_wiring[OF wiring e] obtain e4 where e4: "e4 \<in> set (edges w4)" "wire e4 = wire e"
    by blast
  note same = wire_preds[OF e4(2)]
  have "e4 \<in> set ext"
    unfolding ext_def classifyEdges_sets(2)[OF dist4]
    using e4(1) touch bound by (simp add: same S_def descendantIds_def)
  moreover have "boundary S e4"
    using bound by (simp add: same S_def)
  ultimately obtain es where es: "(groupKey S e4, es) \<in> set (groupEdges S ext)" "e4 \<in> set es"
    using groupEdges_member by blast
  have groups: "projectionGroups w P = groupEdges S ext"
    by (simp add: projectionGroups_alt S_def ext_def w4_def)
  from collapse_record[OF par fresh, of opts] obtain r where
    r: "projectionEdgesMap (snd (collapse opts w P)) P = Some r"
       "originalIds r = map edge_id ext" "length (projIds r) = length (projectionGroups w P)"
    by (auto simp: ext_def w4_def S_def)
  have "edge_id e4 \<in> edge_id ` set ext"
    using \<open>e4 \<in> set ext\<close> by (rule imageI)
  then have "edge_id e \<in> set (originalIds r)"
    by (simp add: same(5) r(2))
  moreover have "edge_id e \<in> edge_id ` set es"
    using imageI[OF es(2), of edge_id] by (simp add: same(5))
  moreover have "isHiddenEle (snd (collapse opts w P)) (edge_id e)"
    "edge_id e \<in> hiddenIds (snd (collapse opts w P))"
    using e touch by (auto simp: collapse_hidden[OF par fresh])
  ultimately show ?thesis
    using r(1,3) es(1) groups same(4) by (auto simp: S_def)
qed

theorem boundary_edges_projected_and_hidden_witness:
  "wellFormed ownEdgeGraph \<and> isParent ownEdgeGraph ''P'' \<and> ''P'' \<notin> collapsedIds ownEdgeGraph
   \<and> mkEdge ''e2'' ''c'' ''X'' \<in> set (edges ownEdgeGraph)
   \<and> touches (set (descendantIds ownEdgeGraph ''P'')) (mkEdge ''e2'' ''c'' ''X'')
   \<and> boundary (insert ''P'' (set (descendantIds ownEdgeGraph ''P''))) (mkEdge ''e2'' ''c'' ''X'')
   \<and> isHiddenEle (snd (collapse plainOpts ownEdgeGraph ''P'')) ''e2''
   \<and> ''e2'' \<in> hiddenIds (snd (collapse plainOpts ownEdgeGraph ''P''))
   \<and> groupKey (insert ''P'' (set (descendantIds ownEdgeGraph ''P''))) (mkEdge ''e2'' ''c'' ''X'')
       = ''out:X''"
proof -
  have wf: "wellFormed ownEdgeGraph"
    by (rule examples_wellFormed)
  have par: "isParent ownEdgeGraph ''P''" and fresh: "''P'' \<notin> collapsedIds ownEdgeGraph"
    and e: "mkEdge ''e2'' ''c'' ''X'' \<in> set (edges ownEdgeGraph)"
    and touch: "touches (set (descendantIds ownEdgeGraph ''P'')) (mkEdge ''e2'' ''c'' ''X'')"
    and bound: "boundary (insert ''P'' (set (descendantIds ownEdgeGraph ''P'')))
                  (mkEdge ''e2'' ''c'' ''X'')"
    and key: "groupKey (insert ''P'' (set (descendantIds ownEdgeGraph ''P'')))
                (mkEdge ''e2'' ''c'' ''X'') = ''out:X''"
    by code_simp+
  have id: "edge_id (mkEdge ''e2'' ''c'' ''X'') = ''e2''"
    by (simp add: mkEdge_def)
  from boundary_edges_projected_and_hidden[OF wf par fresh e touch bound, of plainOpts]
  have "isHiddenEle (snd (collapse plainOpts ownEdgeGraph ''P'')) ''e2''"
    "''e2'' \<in> hiddenIds (snd (collapse plainOpts ownEdgeGraph ''P''))"
    unfolding id by blast+
  with wf par fresh e touch bound key show ?thesis
    by blast
qed

text \<open>
  Claim C4, as stated, fails in its last part for a loop on \<open>P\<close>: both endpoints of the
  edge \<open>e3\<close> of \<open>ownEdgeGraph\<close> are \<open>P\<close>, so they lie in \<open>D \<union> {P}\<close>, but the edge touches no
  descendant and \<open>collapse P\<close> does not hide it.
\<close>

theorem own_loop_not_hidden_counterexample:
  "mkEdge ''e3'' ''P'' ''P'' \<in> set (edges ownEdgeGraph)
   \<and> descendantIds ownEdgeGraph ''P'' = [''c'']
   \<and> internal {''P'', ''c''} (mkEdge ''e3'' ''P'' ''P'')
   \<and> fst (collapse plainOpts ownEdgeGraph ''P'')
   \<and> \<not> isHiddenEle (snd (collapse plainOpts ownEdgeGraph ''P'')) ''e3''"
  by code_simp

text \<open>
  Claim C4, amended. On a well-formed graph, an edge with both endpoints in \<open>D \<union> {P}\<close> is
  not among the original edges recorded for the projections of \<open>P\<close> and lies in no group,
  so no projection edge stands for it; \<open>collapse P\<close> hides it when one of its endpoints is a
  descendant of \<open>P\<close> and otherwise (a loop on \<open>P\<close>) leaves its visibility as it was.
\<close>

theorem internal_edges_not_projected:
  assumes wf: "wellFormed w" and par: "isParent w P" and fresh: "P \<notin> collapsedIds w"
    and e: "e \<in> set (edges w)"
    and inside: "internal (insert P (set (descendantIds w P))) e"
  shows "(\<exists>r. projectionEdgesMap (snd (collapse opts w P)) P = Some r
            \<and> edge_id e \<notin> set (originalIds r))
     \<and> (\<forall>g \<in> set (projectionGroups w P). edge_id e \<notin> edge_id ` set (snd g))
     \<and> isHiddenEle (snd (collapse opts w P)) (edge_id e)
         = (touches (set (descendantIds w P)) e \<or> isHiddenEle w (edge_id e))"
proof -
  define S where "S = insert P (set (descendantIds w P))"
  define w4 where "w4 = hideSubtree w P"
  define ext where "ext = snd (snd (classifyEdges w4 S (descendants w P)))"
  have wiring: "wiring w4 = wiring w"
    by (simp add: w4_def)
  have dist: "distinct (map edge_id (edges w))"
    by (rule wellFormed_distinct(2)[OF wf])
  have dist4: "distinct (map edge_id (edges w4))"
    using dist fst_views(3)[of w4] fst_views(3)[of w] wiring by simp
  from edge_by_wiring[OF wiring e] obtain e4 where e4: "e4 \<in> set (edges w4)" "wire e4 = wire e"
    by blast
  note same = wire_preds[OF e4(2)]
  have notext: "edge_id e \<notin> edge_id ` set ext"
  proof
    assume "edge_id e \<in> edge_id ` set ext"
    then obtain x where x: "x \<in> set ext" "edge_id x = edge_id e"
      by force
    then have "x \<in> set (edges w4)" "boundary S x"
      unfolding ext_def classifyEdges_sets(2)[OF dist4] by simp_all
    moreover from this x(2) have "x = e4"
      using distinct_edge_same[OF dist4 _ e4(1)] same(5) by simp
    ultimately have "boundary S e"
      by (simp add: same)
    with inside show False
      by (simp add: S_def boundary_def internal_def)
  qed
  have groups: "projectionGroups w P = groupEdges S ext"
    by (simp add: projectionGroups_alt S_def ext_def w4_def)
  have nogroup: "edge_id e \<notin> edge_id ` set (snd g)" if "g \<in> set (projectionGroups w P)" for g
  proof -
    obtain k es where g: "g = (k, es)" by (cases g)
    with that have "set es \<subseteq> set ext"
      unfolding groups using groupEdges_content by blast
    with notext g show ?thesis by auto
  qed
  from collapse_record[OF par fresh, of opts] obtain r where
    r: "projectionEdgesMap (snd (collapse opts w P)) P = Some r"
       "originalIds r = map edge_id ext"
    by (auto simp: ext_def w4_def S_def)
  have notnode: "edge_id e \<notin> set (descendantIds w P)"
    using wellFormed_node_vs_edge[OF wf e] descendantIds_subset[of w P] by blast
  have touch: "edge_id e \<in> edge_id ` {x \<in> set (edges w). touches (set (descendantIds w P)) x}
                 \<longleftrightarrow> touches (set (descendantIds w P)) e"
    using distinct_edge_same[OF dist _ e] e by auto
  have "isHiddenEle (snd (collapse opts w P)) (edge_id e)
         = (touches (set (descendantIds w P)) e \<or> isHiddenEle w (edge_id e))"
    unfolding collapse_hidden(1)[OF par fresh] using notnode touch by simp
  with r notext nogroup show ?thesis
    by auto
qed

theorem internal_edges_not_projected_witness:
  "wellFormed ownEdgeGraph \<and> isParent ownEdgeGraph ''P'' \<and> ''P'' \<notin> collapsedIds ownEdgeGraph
   \<and> mkEdge ''e4'' ''P'' ''c'' \<in> set (edges ownEdgeGraph)
   \<and> internal (insert ''P'' (set (descendantIds ownEdgeGraph ''P''))) (mkEdge ''e4'' ''P'' ''c'')
   \<and> touches (set (descendantIds ownEdgeGraph ''P'')) (mkEdge ''e4'' ''P'' ''c'')
   \<and> isHiddenEle (snd (collapse plainOpts ownEdgeGraph ''P'')) ''e4''
   \<and> map_option originalIds (projectionEdgesMap (snd (collapse plainOpts ownEdgeGraph ''P'')) ''P'')
       = Some [''e2'', ''e5'']"
proof -
  have wf: "wellFormed ownEdgeGraph"
    by (rule examples_wellFormed)
  have par: "isParent ownEdgeGraph ''P''" and fresh: "''P'' \<notin> collapsedIds ownEdgeGraph"
    and e: "mkEdge ''e4'' ''P'' ''c'' \<in> set (edges ownEdgeGraph)"
    and inside: "internal (insert ''P'' (set (descendantIds ownEdgeGraph ''P'')))
                   (mkEdge ''e4'' ''P'' ''c'')"
    and touch: "touches (set (descendantIds ownEdgeGraph ''P'')) (mkEdge ''e4'' ''P'' ''c'')"
    and rec: "map_option originalIds
                (projectionEdgesMap (snd (collapse plainOpts ownEdgeGraph ''P'')) ''P'')
              = Some [''e2'', ''e5'']"
    by code_simp+
  have id: "edge_id (mkEdge ''e4'' ''P'' ''c'') = ''e4''"
    by (simp add: mkEdge_def)
  from internal_edges_not_projected[OF wf par fresh e inside, of plainOpts] touch
  have "isHiddenEle (snd (collapse plainOpts ownEdgeGraph ''P'')) ''e4''"
    unfolding id by blast
  with wf par fresh e inside touch rec show ?thesis
    by blast
qed

section \<open>Collapse records\<close>

text \<open>
  Claim C9, as stated, fails: the record of a collapsed node lists all its descendants,
  whether or not one of them is collapsed too. In the nested graph, after
  \<open>collapse parent\<close> and \<open>collapse grandparent\<close> both nodes are collapsed and the
  records of both refer to \<open>child\<close>.
\<close>

theorem nested_records_share_descendant_counterexample:
  "reachable plainOpts nestedGraph nestedCollapsed
   \<and> ''parent'' \<in> collapsedIds nestedCollapsed
   \<and> ''grandparent'' \<in> collapsedIds nestedCollapsed
   \<and> ''child'' \<in> recordIds nestedCollapsed ''parent''
   \<and> ''child'' \<in> recordIds nestedCollapsed ''grandparent''"
proof -
  have "reachable plainOpts nestedGraph nestedCollapsed"
    unfolding nestedCollapsed_def by (intro reachable_collapse reachable_init)
  moreover have "''parent'' \<in> collapsedIds nestedCollapsed"
    "''grandparent'' \<in> collapsedIds nestedCollapsed"
    by code_simp+
  moreover have "hiddenElementsMap nestedCollapsed ''parent'' = Some [''child'']"
    "hiddenElementsMap nestedCollapsed ''grandparent'' = Some [''parent'', ''child'']"
    by code_simp+
  then have "''child'' \<in> recordIds nestedCollapsed ''parent''"
    "''child'' \<in> recordIds nestedCollapsed ''grandparent''"
    by (simp_all add: recordIds_def)
  ultimately show ?thesis by blast
qed

text \<open>
  Claim C9, amended. In every state reached from a well-formed graph with a fresh engine
  state by collapsing and expanding, the record of a collapsed node refers to exactly the
  descendants of that node. So the records of two collapsed nodes neither of which is a
  descendant of the other share no id, and the record of a collapsed node contains the
  record of every collapsed descendant.
\<close>

theorem collapse_records_of_unrelated_nodes_disjoint:
  assumes reach: "reachable opts w0 w" and wf: "wellFormed w0" and init: "collapsedIds w0 = {}"
    and n: "n \<in> collapsedIds w" and m: "m \<in> collapsedIds w" and diff: "n \<noteq> m"
  shows "recordIds w n = set (descendantIds w0 n)
     \<and> recordIds w m = set (descendantIds w0 m)
     \<and> (n \<notin> set (descendantIds w0 m) \<and> m \<notin> set (descendantIds w0 n)
          \<longrightarrow> recordIds w n \<inter> recordIds w m = {})
     \<and> (m \<in> set (descendantIds w0 n) \<longrightarrow> recordIds w m \<subseteq> recordIds w n)"
proof -
  note rn = reachable_recordIds[OF reach init n]
  note rm = reachable_recordIds[OF reach init m]
  note h = wellFormed_hierarchy[OF wf]
  have disjoint: "set (descendantIds w0 n) \<inter> set (descendantIds w0 m) = {}"
    if "n \<notin> set (descendantIds w0 m)" "m \<notin> set (descendantIds w0 n)"
  proof (rule ccontr)
    assume "set (descendantIds w0 n) \<inter> set (descendantIds w0 m) \<noteq> {}"
    then obtain d where "d \<in> set (descendantIds w0 n)" "d \<in> set (descendantIds w0 m)"
      by blast
    from descIds_nested[OF h(1) this[unfolded descendantIds_hierarchy] diff] that
    show False
      by (simp add: descendantIds_hierarchy)
  qed
  have nested: "set (descendantIds w0 m) \<subseteq> set (descendantIds w0 n)"
    if "m \<in> set (descendantIds w0 n)"
    using descIds_trans[OF h _ that[unfolded descendantIds_hierarchy]]
    by (auto simp: descendantIds_hierarchy)
  show ?thesis
    using disjoint nested by (simp add: rn rm)
qed

theorem collapse_records_of_unrelated_nodes_disjoint_witness:
  "reachable plainOpts testGraph bothCollapsed \<and> wellFormed testGraph
   \<and> collapsedIds testGraph = {}
   \<and> ''parent1'' \<in> collapsedIds bothCollapsed \<and> ''parent2'' \<in> collapsedIds bothCollapsed
   \<and> recordIds bothCollapsed ''parent1'' = {''child1'', ''child2''}
   \<and> recordIds bothCollapsed ''parent2'' = {''child3''}
   \<and> recordIds bothCollapsed ''parent1'' \<inter> recordIds bothCollapsed ''parent2'' = {}
   \<and> reachable plainOpts nestedGraph nestedCollapsed
   \<and> recordIds nestedCollapsed ''parent'' \<subseteq> recordIds nestedCollapsed ''grandparent''"
proof -
  have reach: "reachable plainOpts testGraph bothCollapsed"
    unfolding bothCollapsed_def by (intro reachable_collapse reachable_init)
  have wf: "wellFormed testGraph" "wellFormed nestedGraph"
    by (rule examples_wellFormed)+
  have init: "collapsedIds testGraph = {}" "collapsedIds nestedGraph = {}"
    by (simp_all add: testGraph_def nestedGraph_def initial_def)
  have both: "''parent1'' \<in> collapsedIds bothCollapsed" "''parent2'' \<in> collapsedIds bothCollapsed"
    by code_simp+
  have ds: "descendantIds testGraph ''parent1'' = [''child1'', ''child2'']"
    "descendantIds testGraph ''parent2'' = [''child3'']"
    by code_simp+
  have reach': "reachable plainOpts nestedGraph nestedCollapsed"
    unfolding nestedCollapsed_def by (intro reachable_collapse reachable_init)
  have both': "''grandparent'' \<in> collapsedIds nestedCollapsed"
    "''parent'' \<in> collapsedIds nestedCollapsed"
    by code_simp+
  have inner: "''parent'' \<in> set (descendantIds nestedGraph ''grandparent'')"
    by code_simp
  from collapse_records_of_unrelated_nodes_disjoint[OF reach wf(1) init(1) both]
  have "recordIds bothCollapsed ''parent1'' = {''child1'', ''child2''}"
    "recordIds bothCollapsed ''parent2'' = {''child3''}"
    "recordIds bothCollapsed ''parent1'' \<inter> recordIds bothCollapsed ''parent2'' = {}"
    by (simp_all add: ds)
  moreover from collapse_records_of_unrelated_nodes_disjoint[OF reach' wf(2) init(2) both'] inner
  have "recordIds nestedCollapsed ''parent'' \<subseteq> recordIds nestedCollapsed ''grandparent''"
    by blast
  ultimately show ?thesis
    using reach wf(1) init(1) both reach' by blast
qed

section \<open>Outcome of overlap resolution\<close>

text \<open>
  Claim C8. \<open>resolveOverlaps\<close> makes at least one pass and at most the configured maximum
  (50 when none is configured). Every pass but the last one found an overlap, and a run
  that stops before the maximum stops at the first pass that found none. The call either
  returns true, emits nothing, and leaves a world in which \<open>hasOverlaps\<close> is false; or it
  returns false after exactly the maximum number of passes, with \<open>hasOverlaps\<close> still true,
  having emitted the one notification \<open>LayoutResetRequired\<close>. This holds for every graph
  and every bounding-box function of the store. A pass is \<open>resolvePass\<close>: it examines
  every pair of visible nodes without children once and separates the pair when it
  overlaps at that moment.
\<close>

theorem resolveOverlaps_outcome:
  "(maxIterations opts = None \<longrightarrow> maxIterationsOf opts = 50)
   \<and> 1 \<le> snd (snd (resolveRun bb opts w))
   \<and> snd (snd (resolveRun bb opts w)) \<le> maxIterationsOf opts
   \<and> fst (resolveRun bb opts w)
       = afterPasses bb (paddingOf opts) (snd (snd (resolveRun bb opts w))) w
   \<and> (\<forall>j. Suc j < snd (snd (resolveRun bb opts w))
          \<longrightarrow> hasOverlaps bb (afterPasses bb (paddingOf opts) j w))
   \<and> (snd (snd (resolveRun bb opts w)) < maxIterationsOf opts
          \<longrightarrow> \<not> hasOverlaps bb
                 (afterPasses bb (paddingOf opts) (snd (snd (resolveRun bb opts w)) - 1) w))
   \<and> ((fst (resolveOverlaps bb opts w)
         \<and> snd (resolveOverlaps bb opts w) = fst (resolveRun bb opts w)
         \<and> emitted (snd (resolveOverlaps bb opts w)) = emitted w
         \<and> \<not> hasOverlaps bb (snd (resolveOverlaps bb opts w)))
       \<or> (\<not> fst (resolveOverlaps bb opts w)
         \<and> snd (snd (resolveRun bb opts w)) = maxIterationsOf opts
         \<and> emitted (snd (resolveOverlaps bb opts w)) = emitted w @ [LayoutResetRequired]
         \<and> hasOverlaps bb (snd (resolveOverlaps bb opts w))))"
proof -
  define M where "M = maxIterationsOf opts"
  define pad where "pad = paddingOf opts"
  obtain w' h' passes where run: "resolveRun bb opts w = (w', h', passes)"
    by (cases "resolveRun bb opts w") auto
  then have loop: "resolveLoop bb pad M w True 0 = (w', h', passes)"
    by (simp add: resolveRun_def M_def pad_def)
  have M: "1 \<le> M"
    unfolding M_def by (rule maxIterationsOf_positive)
  from resolveLoop_props[OF le0 loop, unfolded diff_zero]
  have p: "passes \<le> M" "h' \<longrightarrow> passes = M" "passes = 0 \<longrightarrow> h'"
    "w' = afterPasses bb pad passes w"
    "0 < passes \<longrightarrow> h' = hasOverlaps bb (afterPasses bb pad (passes - 1) w)"
    "\<forall>j. Suc j < passes \<longrightarrow> hasOverlaps bb (afterPasses bb pad j w)"
    by blast+
  have pos: "1 \<le> passes"
    using p(2,3) M by (cases passes) auto
  have early: "\<not> hasOverlaps bb (afterPasses bb pad (passes - 1) w)" if "passes < M"
    using p(2,5) pos that by auto
  have quiet: "\<not> hasOverlaps bb w'" if "passes < M"
  proof -
    from pos obtain k where k: "passes = Suc k" by (cases passes) auto
    have "\<not> hasOverlaps bb (afterPasses bb pad k w)"
      using early[OF that] k by simp
    then have "afterPasses bb pad (Suc k) w = afterPasses bb pad k w"
      by (simp add: resolvePass_quiet)
    with \<open>\<not> hasOverlaps bb (afterPasses bb pad k w)\<close> p(4) k show ?thesis
      by simp
  qed
  have em: "emitted w' = emitted w"
    by (simp add: p(4))
  have result: "resolveOverlaps bb opts w
                  = (if M \<le> passes \<and> hasOverlaps bb w'
                     then (False, w'\<lparr>emitted := emitted w' @ [LayoutResetRequired]\<rparr>)
                     else (True, w'))"
    by (simp add: resolveOverlaps_def run Let_def M_def)
  have outcome: "(fst (resolveOverlaps bb opts w)
         \<and> snd (resolveOverlaps bb opts w) = w'
         \<and> emitted (snd (resolveOverlaps bb opts w)) = emitted w
         \<and> \<not> hasOverlaps bb (snd (resolveOverlaps bb opts w)))
       \<or> (\<not> fst (resolveOverlaps bb opts w)
         \<and> passes = M
         \<and> emitted (snd (resolveOverlaps bb opts w)) = emitted w @ [LayoutResetRequired]
         \<and> hasOverlaps bb (snd (resolveOverlaps bb opts w)))"
  proof (cases "M \<le> passes \<and> hasOverlaps bb w'")
    case True
    with p(1) have "passes = M" by simp
    with True show ?thesis
      by (simp add: result em)
  next
    case False
    then have "\<not> hasOverlaps bb w'"
      using quiet by (cases "passes < M") auto
    with False show ?thesis
      by (simp add: result em)
  qed
  have default: "maxIterations opts = None \<longrightarrow> M = 50"
    by (simp add: M_def maxIterationsOf_def)
  show ?thesis
    using default pos p(1,4,6) early outcome
    by (simp add: run M_def[symmetric] pad_def[symmetric])
qed

theorem resolveOverlaps_outcome_witness:
  "fst (resolveOverlaps squareBox plainOpts layoutGraph)
   \<and> snd (snd (resolveRun squareBox plainOpts layoutGraph)) = 2
   \<and> maxIterationsOf plainOpts = 50
   \<and> hasOverlaps squareBox layoutGraph
   \<and> \<not> hasOverlaps squareBox (snd (resolveOverlaps squareBox plainOpts layoutGraph))
   \<and> \<not> fst (resolveOverlaps fixedBox cappedOpts layoutGraph)
   \<and> maxIterationsOf cappedOpts = 3
   \<and> snd (snd (resolveRun fixedBox cappedOpts layoutGraph)) = 3
   \<and> emitted (snd (resolveOverlaps fixedBox cappedOpts layoutGraph)) = [LayoutResetRequired]
   \<and> hasOverlaps fixedBox (snd (resolveOverlaps fixedBox cappedOpts layoutGraph))"
proof -
  have ok: "fst (resolveOverlaps squareBox plainOpts layoutGraph)"
    and passes: "snd (snd (resolveRun squareBox plainOpts layoutGraph)) = 2"
    and failed: "\<not> fst (resolveOverlaps fixedBox cappedOpts layoutGraph)"
    and cap: "maxIterationsOf cappedOpts = 3"
    and none: "maxIterations plainOpts = None"
    and quiet: "emitted layoutGraph = []"
    by code_simp+
  note good = resolveOverlaps_outcome[of plainOpts squareBox layoutGraph]
  note bad = resolveOverlaps_outcome[of cappedOpts fixedBox layoutGraph]
  from good none have "maxIterationsOf plainOpts = 50"
    by blast
  moreover from good
  have "\<forall>j. Suc j < snd (snd (resolveRun squareBox plainOpts layoutGraph))
          \<longrightarrow> hasOverlaps squareBox (afterPasses squareBox (paddingOf plainOpts) j layoutGraph)"
    by blast
  then have "Suc 0 < (2::nat)
          \<longrightarrow> hasOverlaps squareBox (afterPasses squareBox (paddingOf plainOpts) 0 layoutGraph)"
    unfolding passes by (rule spec)
  then have "hasOverlaps squareBox layoutGraph"
    by simp
  moreover from good ok
  have "\<not> hasOverlaps squareBox (snd (resolveOverlaps squareBox plainOpts layoutGraph))"
    by blast
  moreover from bad failed
  have "snd (snd (resolveRun fixedBox cappedOpts layoutGraph)) = maxIterationsOf cappedOpts"
    "emitted (snd (resolveOverlaps fixedBox cappedOpts layoutGraph))
       = emitted layoutGraph @ [LayoutResetRequired]"
    "hasOverlaps fixedBox (snd (resolveOverlaps fixedBox cappedOpts layoutGraph))"
    by blast+
  ultimately show ?thesis
    using ok passes failed cap quiet by simp
qed

end
